theory Spec2Isabelle
  imports Main "HOL-Library.Char_ord" "HOL-Library.List_Lexorder" "HOL-Library.Multiset"
begin

section \<open>The data model of the bean container\<close>

text \<open>
  The container of \<^verbatim>\<open>spring-context-default.go\<close> works on \<^verbatim>\<open>*BeanDefinition\<close>
  pointers that several structures share (the bean map, the bean cache, the wiring stack,
  the parent link of a method bean) and whose status it updates in place. The model keeps
  the definitions in an explicit heap, a list addressed by index, and every structure
  holds indices into it.
\<close>

subsection \<open>Runtime types and values as the code inspects them\<close>

text \<open>
  The package \<^verbatim>\<open>reflect\<close> is a library; the model has the part of it the code asks
  about: the kind of a type, its element type, and values that are nil, pointers, slices
  or anything else.
\<close>

datatype kind = Invalid | Struct | Ptr | Slice | Interface | Map | Chan | Func | Basic

datatype rtype =
    TStruct string
  | TInterface string
  | TBasic string
  | TFunc string
  | TMap string
  | TChan string
  | TPtr rtype
  | TSlice rtype

fun Kind :: "rtype \<Rightarrow> kind" where
  "Kind (TStruct _) = Struct"
| "Kind (TInterface _) = Interface"
| "Kind (TBasic _) = Basic"
| "Kind (TFunc _) = Func"
| "Kind (TMap _) = Map"
| "Kind (TChan _) = Chan"
| "Kind (TPtr _) = Ptr"
| "Kind (TSlice _) = Slice"

text \<open>\<^verbatim>\<open>t.Elem()\<close> of a pointer or slice type; the code calls it on no other kind.\<close>

fun Elem :: "rtype \<Rightarrow> rtype" where
  "Elem (TPtr t) = t"
| "Elem (TSlice t) = t"
| "Elem t = t"

text \<open>
  Modelled from the spec: \<^verbatim>\<open>IsRefType\<close> is not among the sources. The spec calls the
  admissible injection target "an assignable (abstract-interface or pointer-like) slot";
  the kinds below are Go's reference kinds.
\<close>

definition IsRefType :: "kind \<Rightarrow> bool" where
  "IsRefType k = (k = Ptr \<or> k = Interface \<or> k = Slice \<or> k = Map \<or> k = Chan \<or> k = Func)"

text \<open>
  A \<^verbatim>\<open>reflect.Value\<close>. An object is named by a path: the number of the allocation and
  the field or element indices that lead into it, so that the address of a struct field
  or of a slice element is a pointer again.
\<close>

type_synonym obj = "nat list"

datatype rvalue =
    VZero
  | VNil rtype
  | VPtr rtype obj
  | VStruct rtype obj
  | VSlice rtype "rvalue list"
  | VIface rtype rvalue
  | VOther rtype nat

fun TypeOf :: "rvalue \<Rightarrow> rtype" where
  "TypeOf VZero = TBasic ''invalid''"
| "TypeOf (VNil t) = t"
| "TypeOf (VPtr t _) = t"
| "TypeOf (VStruct t _) = t"
| "TypeOf (VSlice t _) = t"
| "TypeOf (VIface t _) = t"
| "TypeOf (VOther t _) = t"

text \<open>
  \<^verbatim>\<open>v.Interface() == nil\<close>: packing a value into an empty interface gives nil only for
  the zero value of an interface type; a nil pointer packed into an interface is an
  interface that holds a typed nil, and compares unequal to nil.
\<close>

fun InterfaceIsNil :: "rvalue \<Rightarrow> bool" where
  "InterfaceIsNil (VNil t) = (Kind t = Interface)"
| "InterfaceIsNil _ = False"

text \<open>\<^verbatim>\<open>v.Len()\<close> and \<^verbatim>\<open>v.Index(i)\<close> of a slice value.\<close>

fun Elems :: "rvalue \<Rightarrow> rvalue list" where
  "Elems (VSlice _ vs) = vs"
| "Elems _ = []"

text \<open>\<^verbatim>\<open>v.Kind()\<close>; the zero \<^verbatim>\<open>reflect.Value\<close> has the kind \<^verbatim>\<open>Invalid\<close>.\<close>

fun ValKind :: "rvalue \<Rightarrow> kind" where
  "ValKind VZero = Invalid"
| "ValKind v = Kind (TypeOf v)"

text \<open>
  \<^verbatim>\<open>v.Elem()\<close>: the value an interface holds, or the variable a pointer points to; of a
  nil pointer or interface it is the zero \<^verbatim>\<open>reflect.Value\<close>.
\<close>

fun ValElem :: "rvalue \<Rightarrow> rvalue" where
  "ValElem (VIface _ v) = v"
| "ValElem (VPtr t p) = (if Kind (Elem t) = Struct then VStruct (Elem t) p else VOther (Elem t) 0)"
| "ValElem _ = VZero"

text \<open>\<^verbatim>\<open>v.Addr()\<close> of an addressable struct.\<close>

fun Addr :: "rvalue \<Rightarrow> rvalue" where
  "Addr (VStruct t p) = VPtr (TPtr t) p"
| "Addr v = v"

subsection \<open>Bean definitions\<close>

type_synonym ref = nat

datatype beanStatus =
    beanStatus_Default
  | beanStatus_Resolving
  | beanStatus_Resolved
  | beanStatus_Wiring
  | beanStatus_Wired
  | beanStatus_Deleted

text \<open>
  Modelled from the spec: the constants of \<^verbatim>\<open>beanStatus\<close> are not among the sources.
  The spec gives the state machine Default, Resolving, Resolved, Wiring, Wired, with
  Deleted reached from the first three, and Default as the initial status; the numbers
  follow that order.
\<close>

fun statusRank :: "beanStatus \<Rightarrow> nat" where
  "statusRank beanStatus_Default = 0"
| "statusRank beanStatus_Resolving = 1"
| "statusRank beanStatus_Resolved = 2"
| "statusRank beanStatus_Wiring = 3"
| "statusRank beanStatus_Wired = 4"
| "statusRank beanStatus_Deleted = 5"

text \<open>A selector: a bean id, a type (the \<^verbatim>\<open>(Type)(nil)\<close> form) or a bean definition.\<close>

datatype selector = SelId string | SelType rtype | SelBean ref

text \<open>A function value: a registered constructor, or a method looked up by name on a value.\<close>

datatype fnval = FnConstructor string | FnMethod rvalue string

text \<open>
  The provider of a bean. An object bean holds an existing value. A constructor bean and
  a method bean hold a function; \<^verbatim>\<open>fakeMethodBean\<close> is a method bean whose parent has
  not been looked up yet.
\<close>

datatype springBean =
    objectBean
  | constructorBean string
  | methodBean ref string
  | fakeMethodBean selector string
  | unknownBean

record BeanDefinition =
  bean :: springBean
  name :: string
  typeName :: string
  rType :: rtype
  rValue :: rvalue
  status :: beanStatus
  primary :: bool
  dependsOn :: "selector list"
  exports :: "rtype list"
  init :: bool
  cond :: bool
  beanClass :: string
  caller :: string

text \<open>
  \<^verbatim>\<open>cond\<close> is the answer of the conditional-registration collaborator
  (\<^verbatim>\<open>bd.Matches(ctx)\<close>), \<^verbatim>\<open>init\<close> says whether an init function is set.
\<close>

record beanKey =
  key_rType :: rtype
  key_name :: string

text \<open>
  An \<^verbatim>\<open>IBeanDefinition\<close>: a bean definition, or one of the two wrappers that embed a bean
  definition and change its description.
\<close>

datatype ibd =
    plainBeanDefinition ref
  | fieldBeanDefinition ref string
  | delegateBeanDefinition ref ibd

fun refOf :: "ibd \<Rightarrow> ref" where
  "refOf (plainBeanDefinition r) = r"
| "refOf (fieldBeanDefinition r _) = r"
| "refOf (delegateBeanDefinition r _) = r"

datatype WiringEvent = WiringEvent_Push | WiringEvent_Pop

datatype ContextEvent =
    ContextEvent_ResolveStart
  | ContextEvent_ResolveEnd
  | ContextEvent_AutoWireStart
  | ContextEvent_AutoWireEnd

text \<open>
  A target of an injection: the field of a struct (the object and the field index), or the
  variable a caller of \<^verbatim>\<open>GetBean\<close> or \<^verbatim>\<open>CollectBeans\<close> points to. \<^verbatim>\<open>slotExported\<close>
  is false for an unexported struct field, which \<^verbatim>\<open>reflect\<close> refuses to set.
\<close>

record slot =
  slotObj :: obj
  slotType :: rtype
  slotExported :: bool

subsection \<open>The state\<close>

text \<open>
  \<^verbatim>\<open>defaultSpringContext\<close> with the heap of bean definitions, and the wiring stack of the
  bean assembly at work. \<^verbatim>\<open>watched\<close> is what the wiring watchers have been told,
  \<^verbatim>\<open>notified\<close> what \<^verbatim>\<open>eventNotify\<close> has, \<^verbatim>\<open>written\<close> the values set into
  slots, \<^verbatim>\<open>inited\<close> the beans whose init function has run, \<^verbatim>\<open>logged\<close> the
  wiring paths written to the error log, \<^verbatim>\<open>allocated\<close> the number of objects
  made by \<^verbatim>\<open>reflect.New\<close>.
\<close>

record state =
  beans :: "BeanDefinition list"
  beanMap :: "(beanKey \<times> ref) list"
  beanCache :: "(rtype \<times> ref list) list"
  methodBeans :: "ref list"
  autoWired :: bool
  allAccess :: bool
  Sort :: bool
  hasEventNotify :: bool
  notified :: "ContextEvent list"
  stack :: "ibd list"
  watched :: "(ibd \<times> WiringEvent) list"
  written :: "(slot \<times> rvalue) list"
  inited :: "ref list"
  logged :: "string list"
  allocated :: nat

subsection \<open>Panics\<close>

text \<open>One constructor for each \<^verbatim>\<open>panic\<close> of the file, with the arguments of its message.\<close>

datatype error =
    BeanDeleted string
  | FoundCircleAutowire
  | CantFindDependsOn selector
  | UnknownSpringBeanType
  | ReceiverMustBeRefType string string
  | CantFindBean string string rtype
  | FoundPrimaryBeans nat string string rtype "string list"
  | FoundBeans nat string string rtype "string list"
  | FunctionBeanReturnError string rvalue
  | FunctionBeanReturnNil string
  | FieldShouldBeSlice string
  | CantCollectBeans string string
  | ShouldCallAfterAutoWire
  | RegistrationFrozen
  | DuplicateRegistration string
  | SelectorNilOrEmpty
  | MustBePointer
  | MustBeSlicePtr
  | FindFoundBeans nat selector "string list"
  | NotImplementInterface string rtype
  | AlreadyAutoWired
  | CantFindParentBean string
  | FoundParentBeans nat string
  | RuntimePanic string

text \<open>
  The outcome of a call: it returns a value and leaves a state, it panics and leaves the
  state as it was at that moment, or the model ran out of fuel.
\<close>

datatype 'a result = Done 'a state | Panic error state | OutOfFuel

definition andThen :: "'a result \<Rightarrow> ('a \<Rightarrow> state \<Rightarrow> 'b result) \<Rightarrow> 'b result" where
  "andThen r f = (case r of Done a s \<Rightarrow> f a s | Panic e s \<Rightarrow> Panic e s | OutOfFuel \<Rightarrow> OutOfFuel)"

text \<open>A loop over a list whose body may panic.\<close>

fun forEach :: "'x list \<Rightarrow> ('x \<Rightarrow> state \<Rightarrow> unit result) \<Rightarrow> state \<Rightarrow> unit result" where
  "forEach [] f s = Done () s"
| "forEach (x # xs) f s = andThen (f x s) (\<lambda>_. forEach xs f)"

subsection \<open>Access to the heap of bean definitions\<close>

definition getBean :: "state \<Rightarrow> ref \<Rightarrow> BeanDefinition" where
  "getBean s r = beans s ! r"

definition getStatus :: "state \<Rightarrow> ref \<Rightarrow> beanStatus" where
  "getStatus s r = status (getBean s r)"

definition setStatus :: "ref \<Rightarrow> beanStatus \<Rightarrow> state \<Rightarrow> state" where
  "setStatus r st s = s\<lparr>beans := (beans s)[r := (getBean s r)\<lparr>status := st\<rparr>]\<rparr>"

definition newBean :: "BeanDefinition \<Rightarrow> state \<Rightarrow> ref \<times> state" where
  "newBean d s = (length (beans s), s\<lparr>beans := beans s @ [d]\<rparr>)"

definition BeanId :: "BeanDefinition \<Rightarrow> string" where
  "BeanId d = typeName d @ '':'' @ name d"

section \<open>The bean cache\<close>

text \<open>
  \<^verbatim>\<open>beanCache\<close> maps a type to its \<^verbatim>\<open>*beanCacheItem\<close>; an item is the sequence of the
  beans stored for the type.
\<close>

definition newBeanCacheItem :: "ref list" where
  "newBeanCacheItem = []"

text \<open>\<^verbatim>\<open>getCacheItem\<close> of the bean assembly: the item of the map, or a new item that is not put into the map.\<close>

definition getCacheItem :: "state \<Rightarrow> rtype \<Rightarrow> ref list" where
  "getCacheItem s t = (case map_of (beanCache s) t of Some c \<Rightarrow> c | None \<Rightarrow> newBeanCacheItem)"

text \<open>\<^verbatim>\<open>findCacheItem\<close> of the context: the item of the map, after putting a new one there when the type has none.\<close>

definition findCacheItem :: "rtype \<Rightarrow> state \<Rightarrow> ref list \<times> state" where
  "findCacheItem t s =
     (case map_of (beanCache s) t of
        Some c \<Rightarrow> (c, s)
      | None \<Rightarrow> (newBeanCacheItem, s\<lparr>beanCache := beanCache s @ [(t, newBeanCacheItem)]\<rparr>))"

text \<open>\<^verbatim>\<open>item.store(t, bd)\<close> on the item that the map holds for \<^verbatim>\<open>t\<close>.\<close>

definition store :: "rtype \<Rightarrow> ref \<Rightarrow> state \<Rightarrow> state" where
  "store t r s =
     s\<lparr>beanCache := map (\<lambda>(t', c). if t' = t then (t', c @ [r]) else (t', c)) (beanCache s)\<rparr>"

section \<open>What the file takes from elsewhere\<close>

text \<open>A field of a struct type as \<^verbatim>\<open>et.Field(i)\<close> describes it, with its two tags.\<close>

record structField =
  fieldName :: string
  fieldType :: rtype
  tagValue :: "string option"
  tagAutowire :: "string option"
  fieldExported :: bool

text \<open>The interface \<^verbatim>\<open>beanAssembly\<close>: the two lookups an argument list may call.\<close>

record assembly =
  asmCollectBeans :: "slot \<Rightarrow> state \<Rightarrow> bool result"
  asmGetBeanValue :: "slot \<Rightarrow> string \<Rightarrow> rvalue \<Rightarrow> string \<Rightarrow> state \<Rightarrow> bool result"

text \<open>
  The functions of other files and packages that the code calls and that are not among
  the sources are parameters:
  \<^item> \<^verbatim>\<open>splitBeanId\<close>: how \<^verbatim>\<open>ParseBeanId\<close> divides a bean id into type name and bean name;
  \<^item> \<^verbatim>\<open>AssignableTo\<close>, \<^verbatim>\<open>Implements\<close>, \<^verbatim>\<open>structFields\<close>, \<^verbatim>\<open>TypeName\<close>,
    \<^verbatim>\<open>TypeString\<close>, \<^verbatim>\<open>methodOut\<close> (the first result type of a method): reflection on types;
  \<^item> \<^verbatim>\<open>rangeMap\<close>: the order in which a \<^verbatim>\<open>range\<close> loop visits the bean map, which Go
    leaves open;
  \<^item> \<^verbatim>\<open>bindStructField\<close>: the property binding of a \<^verbatim>\<open>value\<close> tag, which may panic;
  \<^item> \<^verbatim>\<open>argGet\<close>: \<^verbatim>\<open>bean.arg.Get\<close>, which builds the arguments of a factory function through the bean assembly;
  \<^item> \<^verbatim>\<open>Call\<close>: the factory function itself, with the values it returns.
\<close>

record env =
  splitBeanId :: "string \<Rightarrow> string \<times> string"
  AssignableTo :: "rtype \<Rightarrow> rtype \<Rightarrow> bool"
  Implements :: "rtype \<Rightarrow> rtype \<Rightarrow> bool"
  structFields :: "string \<Rightarrow> structField list"
  TypeName :: "rtype \<Rightarrow> string"
  TypeString :: "rtype \<Rightarrow> string"
  methodOut :: "rtype \<Rightarrow> string \<Rightarrow> rtype"
  rangeMap :: "(beanKey \<times> ref) list \<Rightarrow> (beanKey \<times> ref) list"
  bindStructField :: "string \<Rightarrow> string \<Rightarrow> error option"
  argGet :: "assembly \<Rightarrow> ibd \<Rightarrow> state \<Rightarrow> rvalue list result"
  Call :: "fnval \<Rightarrow> rvalue list \<Rightarrow> rvalue list"

text \<open>
  Modelled from the spec: \<^verbatim>\<open>ParseBeanId\<close> is not among the sources. A selector "may end
  in a marker making not found non-fatal"; the marker is the \<^verbatim>\<open>?\<close> that
  \<^verbatim>\<open>GetBeanByName\<close> appends. What is left is divided into type name and bean name.
\<close>

definition ParseBeanId :: "env \<Rightarrow> string \<Rightarrow> string \<times> string \<times> bool" where
  "ParseBeanId E beanId =
     (let nullable = (beanId \<noteq> [] \<and> last beanId = CHR ''?'');
          body = (if nullable then butlast beanId else beanId);
          (typeName', beanName) = splitBeanId E body
      in (typeName', beanName, nullable))"

text \<open>
  Modelled from the spec: \<^verbatim>\<open>Match\<close> is not among the sources. "An empty typeName
  matches any type; an empty beanName matches any name."
\<close>

definition Match :: "BeanDefinition \<Rightarrow> string \<Rightarrow> string \<Rightarrow> bool" where
  "Match d typeName' beanName =
     ((typeName' = [] \<or> typeName d = typeName') \<and> (beanName = [] \<or> name d = beanName))"

text \<open>
  \<^verbatim>\<open>Description\<close>. Modelled from the spec for a plain bean definition, whose method is
  not among the sources: "a human-readable description combining declaration site and
  provider kind". The two wrappers are in the file.
\<close>

fun Description :: "state \<Rightarrow> ibd \<Rightarrow> string" where
  "Description s (plainBeanDefinition r) =
     beanClass (getBean s r) @ '' '' @ caller (getBean s r)"
| "Description s (fieldBeanDefinition r f) =
     beanClass (getBean s r) @ '' field: '' @ f @ '' '' @ caller (getBean s r)"
| "Description s (delegateBeanDefinition r d) =
     beanClass (getBean s (refOf d)) @ '' value '' @ caller (getBean s (refOf d))"

text \<open>
  Modelled from the spec: \<^verbatim>\<open>ValueToBeanDefinition\<close> is not among the sources. It wraps
  a value as a new object bean in its initial status; the code then copies the
  declaration site of the bean it came from (\<^verbatim>\<open>b.file\<close>, \<^verbatim>\<open>b.line\<close>).
\<close>

definition ValueToBeanDefinition :: "env \<Rightarrow> string \<Rightarrow> rvalue \<Rightarrow> string \<Rightarrow> BeanDefinition" where
  "ValueToBeanDefinition E n v site =
     \<lparr>bean = objectBean, name = n, typeName = TypeName E (TypeOf v), rType = TypeOf v,
      rValue = v, status = beanStatus_Default, primary = False, dependsOn = [],
      exports = [], init = False, cond = True, beanClass = ''object bean'', caller = site\<rparr>"

section \<open>The wiring stack\<close>

definition pushBack :: "ibd \<Rightarrow> state \<Rightarrow> state" where
  "pushBack bd s = s\<lparr>stack := stack s @ [bd], watched := watched s @ [(bd, WiringEvent_Push)]\<rparr>"

text \<open>\<^verbatim>\<open>popBack\<close> removes \<^verbatim>\<open>s.stack.Back()\<close>, which is nil on an empty list.\<close>

definition popBack :: "state \<Rightarrow> unit result" where
  "popBack s =
     (if stack s = [] then Panic (RuntimePanic ''invalid memory address or nil pointer dereference'') s
      else Done () (s\<lparr>stack := butlast (stack s),
                      watched := watched s @ [(last (stack s), WiringEvent_Pop)]\<rparr>))"

text \<open>
  \<^verbatim>\<open>path\<close>: one line for each frame, first frame first, without the last line feed;
  the slice \<^verbatim>\<open>path[:len(path)-1]\<close> is out of range on an empty stack. The arrow of a line
  end is three bytes in UTF-8.
\<close>

definition pathLine :: "state \<Rightarrow> ibd \<Rightarrow> string" where
  "pathLine s w = ''=> '' @ Description s w @ [CHR '' '', CHR 0xE2, CHR 0x86, CHR 0xA9, CHR 0x0A]"

definition path :: "state \<Rightarrow> string option" where
  "path s = (if stack s = [] then None else Some (butlast (concat (map (pathLine s) (stack s)))))"

section \<open>Registration and resolution\<close>

definition checkAutoWired :: "state \<Rightarrow> unit result" where
  "checkAutoWired s = (if \<not> autoWired s then Panic ShouldCallAfterAutoWire s else Done () s)"

definition checkRegistration :: "state \<Rightarrow> unit result" where
  "checkRegistration s = (if autoWired s then Panic RegistrationFrozen s else Done () s)"

definition keyOf :: "BeanDefinition \<Rightarrow> beanKey" where
  "keyOf d = \<lparr>key_rType = rType d, key_name = name d\<rparr>"

definition deleteBeanDefinition :: "ref \<Rightarrow> state \<Rightarrow> state" where
  "deleteBeanDefinition bd s =
     (let key = keyOf (getBean s bd);
          s1 = setStatus bd beanStatus_Deleted s
      in s1\<lparr>beanMap := filter (\<lambda>(k, _). k \<noteq> key) (beanMap s1)\<rparr>)"

definition registerBeanDefinition :: "ref \<Rightarrow> state \<Rightarrow> unit result" where
  "registerBeanDefinition d s =
     andThen (checkRegistration s) (\<lambda>_ s.
       let k = keyOf (getBean s d) in
       if map_of (beanMap s) k \<noteq> None then Panic (DuplicateRegistration (BeanId (getBean s d))) s
       else Done () (s\<lparr>beanMap := beanMap s @ [(k, d)]\<rparr>))"

text \<open>
  The export loop of \<^verbatim>\<open>resolveBean\<close>: every exported type must be implemented, and the
  bean is stored under it.
\<close>

definition storeExport :: "env \<Rightarrow> ref \<Rightarrow> rtype \<Rightarrow> state \<Rightarrow> unit result" where
  "storeExport E bd t s =
     (if \<not> Implements E (rType (getBean s bd)) t
      then Panic (NotImplementInterface (Description s (plainBeanDefinition bd)) t) s
      else Done () (store t bd (snd (findCacheItem t s))))"

text \<open>The number of bean definitions that are still in their initial status.\<close>

definition defaultCount :: "state \<Rightarrow> nat" where
  "defaultCount s = length (filter (\<lambda>d. status d = beanStatus_Default) (beans s))"

lemma filter_update_less:
  "i < length xs \<Longrightarrow> P (xs ! i) \<Longrightarrow> \<not> P y \<Longrightarrow> length (filter P (xs[i := y])) < length (filter P xs)"
proof (induction xs arbitrary: i)
  case Nil
  then show ?case by simp
next
  case (Cons x xs)
  show ?case
  proof (cases i)
    case 0
    with Cons.prems show ?thesis by simp
  next
    case (Suc j)
    with Cons.prems Cons.IH [of j] show ?thesis by simp
  qed
qed

lemma statusRank_Default: "\<not> 0 < statusRank st \<Longrightarrow> st = beanStatus_Default"
  by (cases st) simp_all

lemma defaultCount_setStatus:
  "bd < length (beans s) \<Longrightarrow> \<not> 0 < statusRank (getStatus s bd) \<Longrightarrow>
   defaultCount (setStatus bd beanStatus_Resolving s) < defaultCount s"
  unfolding defaultCount_def setStatus_def getStatus_def getBean_def
  by (simp add: filter_update_less statusRank_Default)

text \<open>
  \<^verbatim>\<open>resolveBean\<close>. A pointer of the program always points to a bean definition; the
  first test keeps the model total on an index outside the heap. The recursion on the
  parent ends because the bean is marked as resolving first.
\<close>

function resolveBean :: "env \<Rightarrow> ref \<Rightarrow> state \<Rightarrow> unit result" where
  "resolveBean E bd s =
     (if length (beans s) \<le> bd
      then Panic (RuntimePanic ''invalid memory address or nil pointer dereference'') s
      else if statusRank (getStatus s bd) > statusRank beanStatus_Default then Done () s
      else
        andThen
          (case bean (getBean s bd) of
             methodBean parent m \<Rightarrow>
               andThen (resolveBean E parent (setStatus bd beanStatus_Resolving s)) (\<lambda>_ s2.
                 if getStatus s2 parent = beanStatus_Deleted
                 then Done True (deleteBeanDefinition bd s2)
                 else Done False s2)
           | _ \<Rightarrow> Done False (setStatus bd beanStatus_Resolving s))
          (\<lambda>returned s3.
             if returned then Done () s3
             else if \<not> cond (getBean s3 bd) then Done () (deleteBeanDefinition bd s3)
             else
               andThen
                 (forEach (exports (getBean s3 bd)) (storeExport E bd)
                    (store (rType (getBean s3 bd)) bd (snd (findCacheItem (rType (getBean s3 bd)) s3))))
                 (\<lambda>_ s6. Done () (setStatus bd beanStatus_Resolved s6))))"
  by pat_completeness auto
termination
  by (relation "measure (\<lambda>(E, bd, s). defaultCount s)") (simp_all add: defaultCount_setStatus)

declare resolveBean.simps [simp del]

text \<open>A loop over a list that carries a result along.\<close>

fun foldEach :: "'x list \<Rightarrow> ('x \<Rightarrow> 'a \<Rightarrow> state \<Rightarrow> 'a result) \<Rightarrow> 'a \<Rightarrow> state \<Rightarrow> 'a result" where
  "foldEach [] f a s = Done a s"
| "foldEach (x # xs) f a s = andThen (f x a s) (foldEach xs f)"

text \<open>
  The closure \<^verbatim>\<open>finder\<close> of \<^verbatim>\<open>FindBean\<close>. A \<^verbatim>\<open>range\<close> loop does not produce an entry
  that was removed from the map before the loop reached it.
\<close>

definition finderStep ::
  "env \<Rightarrow> (BeanDefinition \<Rightarrow> bool) \<Rightarrow> beanKey \<times> ref \<Rightarrow> ref list \<Rightarrow> state \<Rightarrow> ref list result" where
  "finderStep E fn kb result s =
     (if kb \<notin> set (beanMap s) then Done result s
      else if fn (getBean s (snd kb)) then
        (if getStatus s (snd kb) = beanStatus_Resolving then Done result s
         else andThen (resolveBean E (snd kb) s) (\<lambda>_ s'.
           if getStatus s' (snd kb) \<noteq> beanStatus_Deleted then Done (result @ [snd kb]) s'
           else Done result s'))
      else Done result s)"

definition finder :: "env \<Rightarrow> (BeanDefinition \<Rightarrow> bool) \<Rightarrow> state \<Rightarrow> ref list result" where
  "finder E fn s = foldEach (rangeMap E (beanMap s)) (finderStep E fn) [] s"

text \<open>
  \<^verbatim>\<open>FindBean\<close>. A selector that is not a string is matched by its type, with the
  pointer taken off a pointer to an interface; for a bean definition given as selector that
  type is \<^verbatim>\<open>*BeanDefinition\<close>.
\<close>

definition selectorFilter :: "env \<Rightarrow> selector \<Rightarrow> BeanDefinition \<Rightarrow> bool" where
  "selectorFilter E selector' =
     (case selector' of
        SelId i \<Rightarrow>
          (let (typeName', beanName, nullable) = ParseBeanId E i
           in (\<lambda>b. Match b typeName' beanName))
      | SelType t \<Rightarrow>
          (let t' = (if Kind t = Ptr \<and> Kind (Elem t) = Interface then Elem t else t)
           in (\<lambda>b. AssignableTo E (rType b) t'))
      | SelBean r \<Rightarrow> (\<lambda>b. AssignableTo E (rType b) (TPtr (TStruct ''SpringCore.BeanDefinition''))))"

definition FindBean :: "env \<Rightarrow> selector \<Rightarrow> state \<Rightarrow> ref option result" where
  "FindBean E selector' s =
     andThen (checkAutoWired s) (\<lambda>_ s.
       andThen (finder E (selectorFilter E selector') s) (\<lambda>result s.
         let count = length result in
         if count = 0 then Done None s
         else if count > 1
         then Panic (FindFoundBeans (length result) selector'
                       (map (\<lambda>b. Description s (plainBeanDefinition b)) result)) s
         else Done (Some (hd result)) s))"

section \<open>The bean assembly\<close>

text \<open>
  The functions of the bean assembly call each other, and every cycle of calls passes
  through \<^verbatim>\<open>wireBeanDefinition\<close>. Each function below takes that call as the parameter
  \<^verbatim>\<open>wire\<close>; \<^verbatim>\<open>wireBeanDefinition\<close> closes the recursion at the end, on a bound for
  the depth of the calls.
\<close>

type_synonym wiring = "ibd \<Rightarrow> bool \<Rightarrow> state \<Rightarrow> unit result"

text \<open>
  \<^verbatim>\<open>SpringUtils.ValuePatchIf(v, allAccess)\<close> followed by \<^verbatim>\<open>Set\<close>: the field of a
  struct can be set when it is exported or when the context allows all access.
\<close>

definition CanSet :: "slot \<Rightarrow> state \<Rightarrow> bool" where
  "CanSet v s = (slotExported v \<or> allAccess s)"

definition setSlot :: "slot \<Rightarrow> rvalue \<Rightarrow> state \<Rightarrow> unit result" where
  "setSlot v x s =
     (if CanSet v s then Done () (s\<lparr>written := written s @ [(v, x)]\<rparr>)
      else Panic (RuntimePanic ''reflect: reflect.Value.Set using value obtained using unexported field'') s)"

text \<open>The two selection loops of \<^verbatim>\<open>getBeanValue\<close>, which append what they keep.\<close>

definition candidates :: "env \<Rightarrow> state \<Rightarrow> rtype \<Rightarrow> string \<Rightarrow> string \<Rightarrow> rvalue \<Rightarrow> ref list" where
  "candidates E s beanType typeName' beanName parentValue =
     foldl (\<lambda>result b.
        if rValue (getBean s b) \<noteq> parentValue
           \<and> AssignableTo E (rType (getBean s b)) beanType
           \<and> Match (getBean s b) typeName' beanName
        then result @ [b] else result) [] (getCacheItem s beanType)"

definition primaries :: "state \<Rightarrow> ref list \<Rightarrow> ref list" where
  "primaries s result = foldl (\<lambda>primaryBeans b. if primary (getBean s b) then primaryBeans @ [b] else primaryBeans) [] result"

text \<open>
  The loop that builds the list in the message of an ambiguity: the description of each
  bean, in the order of the beans.
\<close>

definition descriptions :: "state \<Rightarrow> ref list \<Rightarrow> string list" where
  "descriptions s bs = foldl (\<lambda>msg b. msg @ [Description s (plainBeanDefinition b)]) [] bs"

definition getBeanValue ::
  "env \<Rightarrow> wiring \<Rightarrow> slot \<Rightarrow> string \<Rightarrow> rvalue \<Rightarrow> string \<Rightarrow> state \<Rightarrow> bool result" where
  "getBeanValue E wire v beanId parentValue field s =
     (let (typeName', beanName, nullable) = ParseBeanId E beanId;
          beanType = slotType v
      in
      if \<not> IsRefType (Kind beanType) then Panic (ReceiverMustBeRefType beanId field) s
      else
        let result = candidates E s beanType typeName' beanName parentValue;
            count = length result
        in
        if count = 0
        then (if nullable then Done False s else Panic (CantFindBean beanId field beanType) s)
        else
          let primaryBeans = primaries s result in
          if length primaryBeans > 1
          then Panic (FoundPrimaryBeans (length primaryBeans) beanId field beanType
                        (descriptions s primaryBeans)) s
          else if length primaryBeans = 0 \<and> count > 1
          then Panic (FoundBeans (length result) beanId field beanType (descriptions s result)) s
          else
            let primaryBeans = (if length primaryBeans = 0 then primaryBeans @ [hd result] else primaryBeans)
            in
            andThen (wire (plainBeanDefinition (hd primaryBeans)) False s) (\<lambda>_ s.
              andThen (setSlot v (rValue (getBean s (hd primaryBeans))) s) (\<lambda>_ s. Done True s)))"

text \<open>
  The element of a slice bean in \<^verbatim>\<open>collectBeans\<close>: a struct is wired through its
  address, a pointer to a struct as it is, anything else is left alone.
\<close>

definition wireValue :: "env \<Rightarrow> wiring \<Rightarrow> rvalue \<Rightarrow> string \<Rightarrow> state \<Rightarrow> unit result" where
  "wireValue E wire v site s =
     (let (b, s1) = newBean (ValueToBeanDefinition E [] v site) s
      in wire (plainBeanDefinition b) False s1)"

definition wireElement :: "env \<Rightarrow> wiring \<Rightarrow> ref \<Rightarrow> rvalue \<Rightarrow> state \<Rightarrow> unit result" where
  "wireElement E wire d di s =
     (if ValKind di = Struct then wireValue E wire (Addr di) (caller (getBean s d)) s
      else if ValKind di = Ptr then
        (if ValKind (ValElem di) = Struct then wireValue E wire di (caller (getBean s d)) s
         else Done () s)
      else Done () s)"

text \<open>
  The inner loop of \<^verbatim>\<open>collectBeans\<close> over the indices below the length that the new
  slice was made for. The loop tests \<^verbatim>\<open>i < d.Value().Len()\<close> before every round.
\<close>

fun copyElements ::
  "env \<Rightarrow> wiring \<Rightarrow> ref \<Rightarrow> nat list \<Rightarrow> rvalue list \<Rightarrow> state \<Rightarrow> rvalue list result" where
  "copyElements E wire d [] ev s = Done ev s"
| "copyElements E wire d (i # is) ev s =
     (if \<not> i < length (Elems (rValue (getBean s d))) then Done ev s
      else
        let di = Elems (rValue (getBean s d)) ! i in
        andThen (wireElement E wire d di s) (\<lambda>_ s.
          copyElements E wire d is (ev @ [di]) s))"

text \<open>
  One slice bean: the new slice has room for the elements the bean has when the round
  begins; an index beyond it is out of range.
\<close>

definition collectSlice :: "env \<Rightarrow> wiring \<Rightarrow> ref \<Rightarrow> rvalue list \<Rightarrow> state \<Rightarrow> rvalue list result" where
  "collectSlice E wire d ev s =
     (let size' = length (Elems (rValue (getBean s d))) in
      andThen (copyElements E wire d [0 ..< size'] ev s) (\<lambda>ev s.
        if size' < length (Elems (rValue (getBean s d)))
        then andThen (wireElement E wire d (Elems (rValue (getBean s d)) ! size') s) (\<lambda>_ s.
               Panic (RuntimePanic ''reflect: slice index out of range'') s)
        else Done ev s))"

definition collectSingle :: "wiring \<Rightarrow> ref \<Rightarrow> rvalue list \<Rightarrow> state \<Rightarrow> rvalue list result" where
  "collectSingle wire d ev s =
     andThen (wire (plainBeanDefinition d) False s) (\<lambda>_ s. Done (ev @ [rValue (getBean s d)]) s)"

definition collectBeans :: "env \<Rightarrow> wiring \<Rightarrow> slot \<Rightarrow> state \<Rightarrow> bool result" where
  "collectBeans E wire v s =
     (let t = slotType v in
      andThen (foldEach (getCacheItem s t) (collectSlice E wire) [] s) (\<lambda>ev s.
        let et = Elem t in
        andThen (foldEach (getCacheItem s et) (collectSingle wire) ev s) (\<lambda>ev s.
          if length ev > 0
          then andThen (setSlot v (VSlice t ev) s) (\<lambda>_ s. Done True s)
          else Done False s)))"

definition wireStructField ::
  "env \<Rightarrow> wiring \<Rightarrow> rvalue \<Rightarrow> slot \<Rightarrow> string \<Rightarrow> string \<Rightarrow> state \<Rightarrow> unit result" where
  "wireStructField E wire parentValue beanValue field beanId s =
     (let (typeName', beanName, nullable) = ParseBeanId E beanId in
      if beanName = ''[]'' then
        (if Kind (slotType beanValue) \<noteq> Slice then Panic (FieldShouldBeSlice field) s
         else
           andThen (collectBeans E wire beanValue s) (\<lambda>ok s.
             if \<not> ok \<and> \<not> nullable then Panic (CantCollectBeans beanId field) s
             else Done () s))
      else
        andThen (getBeanValue E wire beanValue beanId parentValue field s) (\<lambda>_ s. Done () s))"

text \<open>The name of a struct type (\<^verbatim>\<open>et.Name()\<close>, or \<^verbatim>\<open>et.String()\<close> when it has none).\<close>

fun structName :: "rtype \<Rightarrow> string" where
  "structName (TStruct n) = n"
| "structName _ = []"

fun objOf :: "rvalue \<Rightarrow> obj" where
  "objOf (VStruct _ p) = p"
| "objOf (VPtr _ p) = p"
| "objOf _ = []"

text \<open>
  One round of the loop over the fields of a struct in \<^verbatim>\<open>wireObjectBean\<close>.
  \<^verbatim>\<open>ev.Field(i)\<close> panics when \<^verbatim>\<open>ev\<close> is the element of a nil pointer.
\<close>

definition wireField ::
  "env \<Rightarrow> wiring \<Rightarrow> ibd \<Rightarrow> bool \<Rightarrow> rvalue \<Rightarrow> rvalue \<Rightarrow> string \<Rightarrow> nat \<times> structField \<Rightarrow> state \<Rightarrow> unit result" where
  "wireField E wire bd onlyAutoWire sv ev etName ift s =
     (let i = fst ift; ft = snd ift in
      if ValKind ev \<noteq> Struct
      then Panic (RuntimePanic ''reflect: call of reflect.Value.Field on zero Value'') s
      else
        let fv = \<lparr>slotObj = objOf ev @ [i], slotType = fieldType ft, slotExported = fieldExported ft\<rparr>;
            fieldName' = etName @ ''.$'' @ fieldName ft
        in
        andThen
          (if \<not> onlyAutoWire then
             (case tagValue ft of
                Some tag \<Rightarrow>
                  (case bindStructField E fieldName' tag of
                     Some e \<Rightarrow> Panic e s
                   | None \<Rightarrow> Done True s)
              | None \<Rightarrow> Done False s)
           else Done False s)
          (\<lambda>fieldOnlyAutoWire s.
             andThen
               (case tagAutowire ft of
                  Some beanId \<Rightarrow> wireStructField E wire sv fv fieldName' beanId s
                | None \<Rightarrow> Done () s)
               (\<lambda>_ s.
                  if Kind (fieldType ft) = Struct then
                    (if CanSet fv s then
                       (let (b, s1) = newBean (ValueToBeanDefinition E []
                                         (VPtr (TPtr (fieldType ft)) (slotObj fv))
                                         (caller (getBean s (refOf bd)))) s
                        in wire (fieldBeanDefinition b fieldName') fieldOnlyAutoWire s1)
                     else Done () s)
                  else Done () s)))"

definition wireObjectBean :: "env \<Rightarrow> wiring \<Rightarrow> ibd \<Rightarrow> bool \<Rightarrow> state \<Rightarrow> unit result" where
  "wireObjectBean E wire bd onlyAutoWire s =
     (let st = rType (getBean s (refOf bd)); sk = Kind st in
      if sk = Slice then
        (let et = Elem st; ek = Kind et in
         if ek = Struct then
           forEach (Elems (rValue (getBean s (refOf bd))))
             (\<lambda>e s. wireValue E wire (Addr e) (caller (getBean s (refOf bd))) s) s
         else if ek = Ptr then
           (if Kind (Elem et) = Struct then
              forEach (Elems (rValue (getBean s (refOf bd))))
                (\<lambda>pv s. wireValue E wire pv (caller (getBean s (refOf bd))) s) s
            else Done () s)
         else Done () s)
      else if sk = Ptr then
        (let et = Elem st in
         if Kind et = Struct then
           (let etName = structName et;
                sv = rValue (getBean s (refOf bd));
                ev = ValElem sv
            in forEach (enumerate 0 (structFields E etName))
                 (wireField E wire bd onlyAutoWire sv ev etName) s)
         else Done () s)
      else Done () s)"

text \<open>
  \<^verbatim>\<open>wireFunctionBean\<close>. The function bean of \<^verbatim>\<open>bd\<close> keeps its value in
  \<^verbatim>\<open>rValue\<close>: a variable of the function's first result type when that is a reference
  type, and a pointer to such a variable otherwise. The value that an interface holds is
  put behind a new pointer when it is a struct.
\<close>

definition returnedValue :: "rvalue \<Rightarrow> rvalue \<Rightarrow> nat \<Rightarrow> rvalue" where
  "returnedValue old val fresh =
     (if IsRefType (ValKind val) then
        (if ValKind val = Interface \<and> ValKind (ValElem val) = Struct
         then VIface (TypeOf val) (VPtr (TPtr (TypeOf (ValElem val))) [fresh])
         else val)
      else old)"

definition wireFunctionBean :: "env \<Rightarrow> wiring \<Rightarrow> fnval \<Rightarrow> ibd \<Rightarrow> state \<Rightarrow> unit result" where
  "wireFunctionBean E wire fnValue bd s =
     andThen (argGet E \<lparr>asmCollectBeans = collectBeans E wire, asmGetBeanValue = getBeanValue E wire\<rparr> bd s)
       (\<lambda>in' s.
          let out = Call E fnValue in' in
          if out = [] then Panic (RuntimePanic ''index out of range [0] with length 0'') s
          else
            let val = out ! 0 in
            if length out = 2 \<and> \<not> InterfaceIsNil (out ! 1)
            then Panic (FunctionBeanReturnError (caller (getBean s (refOf bd))) (out ! 1)) s
            else
              let r = refOf bd;
                  new = returnedValue (rValue (getBean s r)) val (allocated s);
                  s1 = s\<lparr>beans := (beans s)[r := (getBean s r)\<lparr>rValue := new\<rparr>],
                         allocated := (if ValKind val = Interface \<and> ValKind (ValElem val) = Struct
                                       then Suc (allocated s) else allocated s)\<rparr>
              in
              if InterfaceIsNil new
              then Panic (FunctionBeanReturnNil (caller (getBean s1 r))) s1
              else
                let v = (if Kind (rType (getBean s1 r)) = Interface then ValElem new else new);
                    (b, s2) = newBean
                      (\<lparr>bean = objectBean, name = name (getBean s1 r),
                        typeName = TypeName E (TypeOf v), rType = TypeOf v, rValue = v,
                        status = beanStatus_Default, primary = False, dependsOn = [],
                        exports = [], init = False, cond = True,
                        beanClass = ''object bean'', caller = caller (getBean s1 r)\<rparr>) s1
                in wire (delegateBeanDefinition b bd) False s2)"

text \<open>\<^verbatim>\<open>wireBeanDefinition\<close>, with its own recursive calls as the parameter \<^verbatim>\<open>wire\<close>.\<close>

definition wireDependsOn :: "env \<Rightarrow> wiring \<Rightarrow> selector \<Rightarrow> state \<Rightarrow> unit result" where
  "wireDependsOn E wire selector' s =
     andThen (FindBean E selector' s) (\<lambda>found s.
       case found of
         None \<Rightarrow> Panic (CantFindDependsOn selector') s
       | Some b \<Rightarrow> wire (plainBeanDefinition b) False s)"

definition callInit :: "ref \<Rightarrow> state \<Rightarrow> state" where
  "callInit r s = (if init (getBean s r) then s\<lparr>inited := inited s @ [r]\<rparr> else s)"

definition wireBeanDefinitionBody :: "env \<Rightarrow> wiring \<Rightarrow> ibd \<Rightarrow> bool \<Rightarrow> state \<Rightarrow> unit result" where
  "wireBeanDefinitionBody E wire bd onlyAutoWire s =
     (let r = refOf bd in
      if getStatus s r = beanStatus_Deleted then Panic (BeanDeleted (BeanId (getBean s r))) s
      else if getStatus s r = beanStatus_Wired then Done () s
      else
        let s = pushBack bd s in
        if getStatus s r = beanStatus_Wiring then
          (if bean (getBean s r) \<noteq> objectBean then Panic FoundCircleAutowire s
           else Done () s)
        else
          let s = setStatus r beanStatus_Wiring s in
          andThen (forEach (dependsOn (getBean s r)) (wireDependsOn E wire) s) (\<lambda>_ s.
            andThen
              (case bean (getBean s r) of
                 methodBean parent m \<Rightarrow> wire (plainBeanDefinition parent) False s
               | _ \<Rightarrow> Done () s)
              (\<lambda>_ s.
                 andThen
                   (case bean (getBean s r) of
                      objectBean \<Rightarrow> wireObjectBean E wire bd onlyAutoWire s
                    | constructorBean fn \<Rightarrow> wireFunctionBean E wire (FnConstructor fn) bd s
                    | methodBean parent m \<Rightarrow>
                        wireFunctionBean E wire (FnMethod (rValue (getBean s parent)) m) bd s
                    | _ \<Rightarrow> Panic UnknownSpringBeanType s)
                   (\<lambda>_ s.
                      andThen (popBack (callInit r s)) (\<lambda>_ s.
                        Done () (setStatus r beanStatus_Wired s))))))"

text \<open>
  The recursion, closed on a bound for the depth of the nested calls of
  \<^verbatim>\<open>wireBeanDefinition\<close>; a call that needs more depth than the bound ends as \<^verbatim>\<open>OutOfFuel\<close>.
\<close>

primrec wireBeanDefinition :: "env \<Rightarrow> nat \<Rightarrow> wiring" where
  "wireBeanDefinition E 0 = (\<lambda>bd onlyAutoWire s. OutOfFuel)"
| "wireBeanDefinition E (Suc n) = wireBeanDefinitionBody E (wireBeanDefinition E n)"

section \<open>The context\<close>

definition newDefaultBeanAssembly :: "state \<Rightarrow> state" where
  "newDefaultBeanAssembly s = s\<lparr>stack := []\<rparr>"

definition eventNotify :: "ContextEvent \<Rightarrow> state \<Rightarrow> state" where
  "eventNotify event s = (if hasEventNotify s then s\<lparr>notified := notified s @ [event]\<rparr> else s)"

text \<open>
  A \<^verbatim>\<open>range\<close> loop over \<^verbatim>\<open>ctx.beanMap\<close>: the entries in the order of the runtime,
  without those removed before the loop reaches them.
\<close>

definition rangeBeanMap :: "env \<Rightarrow> (ref \<Rightarrow> state \<Rightarrow> unit result) \<Rightarrow> state \<Rightarrow> unit result" where
  "rangeBeanMap E body s =
     forEach (rangeMap E (beanMap s))
       (\<lambda>kb s. if kb \<in> set (beanMap s) then body (snd kb) s else Done () s) s"

text \<open>
  Registration. \<^verbatim>\<open>ToBeanDefinition\<close>, \<^verbatim>\<open>FnToBeanDefinition\<close> and
  \<^verbatim>\<open>MethodToBeanDefinition\<close> are not among the sources; the bean definition they
  build is the argument.
\<close>

definition RegisterNameBean :: "BeanDefinition \<Rightarrow> state \<Rightarrow> ref result" where
  "RegisterNameBean d s =
     (let (bd, s1) = newBean d s in
      andThen (registerBeanDefinition bd s1) (\<lambda>_ s. Done bd s))"

definition RegisterNameBeanFn :: "BeanDefinition \<Rightarrow> state \<Rightarrow> ref result" where
  "RegisterNameBeanFn d s =
     (let (bd, s1) = newBean d s in
      andThen (registerBeanDefinition bd s1) (\<lambda>_ s. Done bd s))"

definition RegisterNameMethodBean :: "BeanDefinition \<Rightarrow> state \<Rightarrow> ref result" where
  "RegisterNameMethodBean d s =
     andThen (checkRegistration s) (\<lambda>_ s.
       case bean d of
         fakeMethodBean selector' m \<Rightarrow>
           if selector' = SelId [] then Panic SelectorNilOrEmpty s
           else
             (let (bd, s1) = newBean d s in
              Done bd (s1\<lparr>methodBeans := methodBeans s1 @ [bd]\<rparr>))
       | _ \<Rightarrow> Panic SelectorNilOrEmpty s)"

text \<open>
  \<^verbatim>\<open>GetBeanByName\<close> and \<^verbatim>\<open>GetBean\<close>; \<^verbatim>\<open>i\<close> must be a pointer to the variable to
  fill. Of a nil \<^verbatim>\<open>i\<close> (the zero value here) \<^verbatim>\<open>reflect.TypeOf\<close> is nil, and
  \<^verbatim>\<open>t.Kind()\<close> is a nil pointer dereference; of a nil pointer \<^verbatim>\<open>v.Elem()\<close> is the zero
  value, whose type the lookup cannot ask for.
\<close>

definition ensureNullable :: "string \<Rightarrow> string" where
  "ensureNullable beanId =
     (if beanId = [] \<or> last beanId \<noteq> CHR ''?'' then beanId @ ''?'' else beanId)"

definition GetBeanByName :: "env \<Rightarrow> nat \<Rightarrow> string \<Rightarrow> rvalue \<Rightarrow> state \<Rightarrow> bool result" where
  "GetBeanByName E fuel beanId i s =
     andThen (checkAutoWired s) (\<lambda>_ s.
       let beanId = ensureNullable beanId in
       case i of
         VPtr t p \<Rightarrow>
           getBeanValue E (wireBeanDefinition E fuel)
             \<lparr>slotObj = p, slotType = Elem t, slotExported = True\<rparr> beanId VZero []
             (newDefaultBeanAssembly s)
       | VZero \<Rightarrow> Panic (RuntimePanic ''invalid memory address or nil pointer dereference'') s
       | _ \<Rightarrow>
           if ValKind i \<noteq> Ptr then Panic MustBePointer s
           else Panic (RuntimePanic ''reflect: call of reflect.Value.Type on zero Value'') s)"

definition GetBean :: "env \<Rightarrow> nat \<Rightarrow> rvalue \<Rightarrow> state \<Rightarrow> bool result" where
  "GetBean E fuel i s = GetBeanByName E fuel ''?'' i s"

definition CollectBeans :: "env \<Rightarrow> nat \<Rightarrow> rvalue \<Rightarrow> state \<Rightarrow> bool result" where
  "CollectBeans E fuel i s =
     andThen (checkAutoWired s) (\<lambda>_ s.
       if i = VZero then Panic (RuntimePanic ''invalid memory address or nil pointer dereference'') s
       else if ValKind i \<noteq> Ptr then Panic MustBeSlicePtr s
       else if Kind (Elem (TypeOf i)) \<noteq> Slice then Panic MustBeSlicePtr s
       else
         case i of
           VPtr t p \<Rightarrow>
             collectBeans E (wireBeanDefinition E fuel)
               \<lparr>slotObj = p, slotType = Elem t, slotExported = True\<rparr> (newDefaultBeanAssembly s)
         | _ \<Rightarrow> Panic (RuntimePanic ''reflect: call of reflect.Value.Type on zero Value'') s)"

definition WireBean :: "env \<Rightarrow> nat \<Rightarrow> rvalue \<Rightarrow> state \<Rightarrow> unit result" where
  "WireBean E fuel bean' s =
     andThen (checkAutoWired s) (\<lambda>_ s.
       wireValue E (wireBeanDefinition E fuel) bean' [] (newDefaultBeanAssembly s))"

text \<open>
  \<^verbatim>\<open>AutoWireBeans\<close>, first part: every method bean gets its parent, the one bean
  that its selector finds, and is registered.
\<close>

definition parentsOf :: "env \<Rightarrow> selector \<Rightarrow> state \<Rightarrow> string \<times> ref list" where
  "parentsOf E selector' s =
     (case selector' of
        SelBean e \<Rightarrow> (BeanId (getBean s e), [e])
      | SelId e \<Rightarrow>
          (let (typeName', beanName, nullable) = ParseBeanId E e in
           (e, map snd (filter (\<lambda>kb. Match (getBean s (snd kb)) typeName' beanName)
                          (rangeMap E (beanMap s)))))
      | SelType t \<Rightarrow>
          (let t' = (if Kind t = Ptr \<and> Kind (Elem t) = Interface then Elem t else t) in
           (TypeString E t', map snd (filter (\<lambda>kb. rType (getBean s (snd kb)) = t')
                                        (rangeMap E (beanMap s))))))"

definition registerMethodBean :: "env \<Rightarrow> ref \<Rightarrow> state \<Rightarrow> unit result" where
  "registerMethodBean E bd s =
     (case bean (getBean s bd) of
        fakeMethodBean selector' m \<Rightarrow>
          (let (selectorName, result) = parentsOf E selector' s; l = length result in
           if l = 0 then Panic (CantFindParentBean selectorName) s
           else if l > 1 then Panic (FoundParentBeans l selectorName) s
           else
             let t = methodOut E (rType (getBean s (hd result))) m;
                 d = (getBean s bd)\<lparr>bean := methodBean (hd result) m, rType := t,
                        typeName := TypeName E t\<rparr>;
                 d = (if name d = [] then d\<lparr>name := TypeString E t\<rparr> else d)
             in registerBeanDefinition bd (s\<lparr>beans := (beans s)[bd := d]\<rparr>))
      | _ \<Rightarrow> Panic (RuntimePanic ''interface conversion: SpringBean is not *fakeMethodBean'') s)"

text \<open>
  The wiring loops of \<^verbatim>\<open>AutoWireBeans\<close>. With \<^verbatim>\<open>Sort\<close> the bean ids are collected in a
  map from bean id to key, sorted, and the beans wired in that order; a later entry of the
  loop takes the place of an earlier one with the same bean id.
\<close>

fun mapStore :: "'k \<Rightarrow> 'v \<Rightarrow> ('k \<times> 'v) list \<Rightarrow> ('k \<times> 'v) list" where
  "mapStore k v [] = [(k, v)]"
| "mapStore k v ((k', v') # m) = (if k' = k then (k, v) # m else (k', v') # mapStore k v m)"

definition beanKeyMapOf :: "env \<Rightarrow> state \<Rightarrow> (string \<times> beanKey) list" where
  "beanKeyMapOf E s =
     foldl (\<lambda>m kb. mapStore (BeanId (getBean s (snd kb))) (fst kb) m) [] (rangeMap E (beanMap s))"

definition wireSorted :: "wiring \<Rightarrow> (string \<times> beanKey) list \<Rightarrow> string \<Rightarrow> state \<Rightarrow> unit result" where
  "wireSorted wire beanKeyMap beanId s =
     (case map_of beanKeyMap beanId of
        Some key \<Rightarrow>
          (case map_of (beanMap s) key of
             Some bd \<Rightarrow> wire (plainBeanDefinition bd) False s
           | None \<Rightarrow> Panic (RuntimePanic ''invalid memory address or nil pointer dereference'') s)
      | None \<Rightarrow> Panic (RuntimePanic ''invalid memory address or nil pointer dereference'') s)"

definition wireAll :: "env \<Rightarrow> wiring \<Rightarrow> state \<Rightarrow> unit result" where
  "wireAll E wire s =
     (if Sort s then
        (let beanKeyMap = beanKeyMapOf E s;
             beanIds = sort (map fst beanKeyMap)
         in forEach beanIds (wireSorted wire beanKeyMap) s)
      else rangeBeanMap E (\<lambda>bd s. wire (plainBeanDefinition bd) False s) s)"

text \<open>
  The deferred function of \<^verbatim>\<open>AutoWireBeans\<close>: a panic of the wiring is logged with the
  path of the wiring stack and raised again; on an empty stack \<^verbatim>\<open>path\<close> panics itself.
\<close>

definition recoverLog :: "unit result \<Rightarrow> unit result" where
  "recoverLog r =
     (case r of
        Panic e s \<Rightarrow>
          (case path s of
             Some p \<Rightarrow> Panic e (s\<lparr>logged := logged s @ [p]\<rparr>)
           | None \<Rightarrow> Panic (RuntimePanic ''slice bounds out of range [:-1]'') s)
      | Done u s \<Rightarrow> Done u s
      | OutOfFuel \<Rightarrow> OutOfFuel)"

definition AutoWireBeans :: "env \<Rightarrow> nat \<Rightarrow> state \<Rightarrow> unit result" where
  "AutoWireBeans E fuel s =
     (if autoWired s then Panic AlreadyAutoWired s
      else
        andThen (forEach (methodBeans s) (registerMethodBean E) s) (\<lambda>_ s.
          let s = eventNotify ContextEvent_ResolveStart (s\<lparr>autoWired := True\<rparr>) in
          andThen (rangeBeanMap E (resolveBean E) s) (\<lambda>_ s.
            let s = eventNotify ContextEvent_AutoWireStart
                      (newDefaultBeanAssembly (eventNotify ContextEvent_ResolveEnd s))
            in
            recoverLog
              (andThen (wireAll E (wireBeanDefinition E fuel) s) (\<lambda>_ s.
                 Done () (eventNotify ContextEvent_AutoWireEnd s))))))"

text \<open>\<^verbatim>\<open>NewDefaultSpringContext\<close>: nothing registered, nothing cached.\<close>

definition NewDefaultSpringContext :: state where
  "NewDefaultSpringContext =
     \<lparr>beans = [], beanMap = [], beanCache = [], methodBeans = [], autoWired = False,
      allAccess = False, Sort = False, hasEventNotify = False, notified = [], stack = [],
      watched = [], written = [], inited = [], logged = [], allocated = 0\<rparr>"

section \<open>The notions of the claims\<close>

text \<open>
  The candidates of a lookup: the beans cached for the type of the target whose value is
  not the value being injected into, whose type is assignable to the target type and
  which match the selector.
\<close>

definition isCandidate :: "env \<Rightarrow> state \<Rightarrow> rtype \<Rightarrow> string \<Rightarrow> rvalue \<Rightarrow> ref \<Rightarrow> bool" where
  "isCandidate E s beanType beanId parentValue b =
     (rValue (getBean s b) \<noteq> parentValue
      \<and> AssignableTo E (rType (getBean s b)) beanType
      \<and> Match (getBean s b) (fst (ParseBeanId E beanId)) (fst (snd (ParseBeanId E beanId))))"

subsection \<open>What a call leaves behind\<close>

text \<open>
  \<^verbatim>\<open>post Q P r\<close>: when the call returns, \<^verbatim>\<open>Q\<close> holds of the value and the state;
  when it panics, \<^verbatim>\<open>P\<close> holds of the state the panic leaves. \<^verbatim>\<open>holds I r\<close>: the state
  satisfies \<^verbatim>\<open>I\<close> either way.
\<close>

definition post :: "('a \<Rightarrow> state \<Rightarrow> bool) \<Rightarrow> (state \<Rightarrow> bool) \<Rightarrow> 'a result \<Rightarrow> bool" where
  "post Q P r = (case r of Done a s \<Rightarrow> Q a s | Panic e s \<Rightarrow> P s | OutOfFuel \<Rightarrow> True)"

definition holds :: "(state \<Rightarrow> bool) \<Rightarrow> 'a result \<Rightarrow> bool" where
  "holds I r = post (\<lambda>a. I) I r"

subsection \<open>How resolution and wiring change the context\<close>

text \<open>
  A bean that is being wired, is wired or is deleted is frozen for the calls nested in
  the current one. \<^verbatim>\<open>stepBean d d'\<close> relates a bean definition before and after a call
  of the resolution or of the wiring: only its status and its value change, a frozen bean
  keeps both, a status other than Default never becomes Default, only a bean in status
  Default can become deleted, and an object bean keeps its value.
\<close>

definition frozen :: "beanStatus \<Rightarrow> bool" where
  "frozen st = (st = beanStatus_Wiring \<or> st = beanStatus_Wired \<or> st = beanStatus_Deleted)"

definition stepBean :: "BeanDefinition \<Rightarrow> BeanDefinition \<Rightarrow> bool" where
  "stepBean d d' =
     (bean d' = bean d \<and> name d' = name d \<and> rType d' = rType d \<and> primary d' = primary d
      \<and> typeName d' = typeName d \<and> caller d' = caller d \<and> beanClass d' = beanClass d
      \<and> (frozen (status d) \<longrightarrow> status d' = status d \<and> rValue d' = rValue d)
      \<and> (status d \<noteq> beanStatus_Default \<longrightarrow> status d' \<noteq> beanStatus_Default)
      \<and> (status d' = beanStatus_Deleted \<longrightarrow> status d = beanStatus_Default \<or> status d = beanStatus_Deleted)
      \<and> (bean d = objectBean \<longrightarrow> rValue d' = rValue d))"

text \<open>
  The beans in the cache, and the invariant of the cache: every cached bean is a bean of
  the heap whose status is neither Default nor Deleted.
\<close>

definition cachedRefs :: "state \<Rightarrow> ref set" where
  "cachedRefs s = (\<Union>tc \<in> set (beanCache s). set (snd tc))"

definition cacheInv :: "state \<Rightarrow> bool" where
  "cacheInv s = (\<forall>r \<in> cachedRefs s. r < length (beans s)
      \<and> getStatus s r \<noteq> beanStatus_Default \<and> getStatus s r \<noteq> beanStatus_Deleted)"

text \<open>
  \<^verbatim>\<open>resolvedAll\<close>: every bean of the bean map has been resolved, as it is after the
  resolve loop of \<^verbatim>\<open>AutoWireBeans\<close>.
\<close>

definition resolvedAll :: "state \<Rightarrow> bool" where
  "resolvedAll s = (\<forall>kb \<in> set (beanMap s). snd kb < length (beans s) \<and> getStatus s (snd kb) \<noteq> beanStatus_Default)"

text \<open>
  \<^verbatim>\<open>step s s'\<close>: the heap of \<^verbatim>\<open>s'\<close> extends that of \<^verbatim>\<open>s\<close>, each bean of \<^verbatim>\<open>s\<close>
  has changed by \<^verbatim>\<open>stepBean\<close>, a bean that is cached now and was not cached before was in
  status Default (or did not exist) and is now neither Default nor Deleted, and the bean
  map has lost entries at most. \<^verbatim>\<open>quiet\<close>: cache and bean map are the same.
  \<^verbatim>\<open>evolves s s'\<close> is what the wiring guarantees from a state with the cache invariant:
  a step, which is quiet when all beans of the map were resolved.
\<close>

definition step :: "state \<Rightarrow> state \<Rightarrow> bool" where
  "step s s' =
     (length (beans s) \<le> length (beans s')
      \<and> (\<forall>r < length (beans s). stepBean (beans s ! r) (beans s' ! r))
      \<and> (\<forall>r \<in> cachedRefs s'. r \<in> cachedRefs s
            \<or> ((r < length (beans s) \<longrightarrow> status (beans s ! r) = beanStatus_Default)
                \<and> r < length (beans s')
                \<and> status (beans s' ! r) \<noteq> beanStatus_Default
                \<and> status (beans s' ! r) \<noteq> beanStatus_Deleted))
      \<and> set (beanMap s') \<subseteq> set (beanMap s)
      \<and> autoWired s' = autoWired s)"

definition quiet :: "state \<Rightarrow> state \<Rightarrow> bool" where
  "quiet s s' = (beanCache s' = beanCache s \<and> beanMap s' = beanMap s)"

definition evolves :: "state \<Rightarrow> state \<Rightarrow> bool" where
  "evolves s s' = (cacheInv s \<longrightarrow> step s s' \<and> (resolvedAll s \<longrightarrow> quiet s s'))"

text \<open>
  The assumption on the parameters: the recursive call, and the argument list of a factory
  function (\<^verbatim>\<open>bean.arg.Get\<close>), which changes the context only by what the bean assembly
  it is given does.
\<close>

definition wiringOK :: "wiring \<Rightarrow> bool" where
  "wiringOK wire = (\<forall>bd onlyAutoWire s. holds (evolves s) (wire bd onlyAutoWire s))"

definition assemblyOK :: "assembly \<Rightarrow> bool" where
  "assemblyOK asm =
     ((\<forall>v s. holds (evolves s) (asmCollectBeans asm v s))
      \<and> (\<forall>v beanId parentValue field s. holds (evolves s) (asmGetBeanValue asm v beanId parentValue field s)))"

definition envOK :: "env \<Rightarrow> bool" where
  "envOK E = (\<forall>asm bd s. assemblyOK asm \<longrightarrow> holds (evolves s) (argGet E asm bd s))"

subsection \<open>The states a context can reach\<close>

text \<open>
  The calls of the public interface of the context; \<^verbatim>\<open>Sort\<close> is a public field. A state
  is reachable when calls lead to it from a new context; the state that a panic leaves counts.
\<close>

datatype call =
    CallRegisterNameBean BeanDefinition
  | CallRegisterNameBeanFn BeanDefinition
  | CallRegisterNameMethodBean BeanDefinition
  | CallSetAllAccess bool
  | CallSetSort bool
  | CallSetEventNotify bool
  | CallAutoWireBeans nat
  | CallGetBean nat rvalue
  | CallGetBeanByName nat string rvalue
  | CallFindBean selector
  | CallCollectBeans nat rvalue
  | CallWireBean nat rvalue

definition leaves :: "'a result \<Rightarrow> state option" where
  "leaves r = (case r of Done a s \<Rightarrow> Some s | Panic e s \<Rightarrow> Some s | OutOfFuel \<Rightarrow> None)"

fun run :: "env \<Rightarrow> call \<Rightarrow> state \<Rightarrow> state option" where
  "run E (CallRegisterNameBean d) s = leaves (RegisterNameBean d s)"
| "run E (CallRegisterNameBeanFn d) s = leaves (RegisterNameBeanFn d s)"
| "run E (CallRegisterNameMethodBean d) s = leaves (RegisterNameMethodBean d s)"
| "run E (CallSetAllAccess b) s = Some (s\<lparr>allAccess := b\<rparr>)"
| "run E (CallSetSort b) s = Some (s\<lparr>Sort := b\<rparr>)"
| "run E (CallSetEventNotify b) s = Some (s\<lparr>hasEventNotify := b\<rparr>)"
| "run E (CallAutoWireBeans fuel) s = leaves (AutoWireBeans E fuel s)"
| "run E (CallGetBean fuel i) s = leaves (GetBean E fuel i s)"
| "run E (CallGetBeanByName fuel beanId i) s = leaves (GetBeanByName E fuel beanId i s)"
| "run E (CallFindBean selector') s = leaves (FindBean E selector' s)"
| "run E (CallCollectBeans fuel i) s = leaves (CollectBeans E fuel i s)"
| "run E (CallWireBean fuel bean') s = leaves (WireBean E fuel bean' s)"

inductive reachable :: "env \<Rightarrow> state \<Rightarrow> bool" for E :: env where
  new: "reachable E NewDefaultSpringContext"
| call: "reachable E s \<Longrightarrow> run E c s = Some s' \<Longrightarrow> reachable E s'"

text \<open>
  No bean in the cache has the status Deleted.
\<close>

definition cacheHasNoDeleted :: "state \<Rightarrow> bool" where
  "cacheHasNoDeleted s =
     list_all (\<lambda>tc. list_all (\<lambda>r. getStatus s r \<noteq> beanStatus_Deleted) (snd tc)) (beanCache s)"


section \<open>Sample contexts\<close>

text \<open>
  The contexts and the collaborators on which the theorems below are run: a bean id is
  divided at its colon, a type is assignable to itself only, a map is visited in the order
  of its entries, and a factory takes no arguments.
\<close>

fun splitAtColon :: "string \<Rightarrow> string \<times> string" where
  "splitAtColon b =
     (if CHR '':'' \<in> set b
      then (takeWhile (\<lambda>c. c \<noteq> CHR '':'') b, tl (dropWhile (\<lambda>c. c \<noteq> CHR '':'') b))
      else ([], b))"

definition sampleEnv :: env where
  "sampleEnv =
     \<lparr>splitBeanId = splitAtColon,
      AssignableTo = (\<lambda>a b. a = b),
      Implements = (\<lambda>a b. False),
      structFields = (\<lambda>n. []),
      TypeName = structName \<circ> Elem,
      TypeString = structName \<circ> Elem,
      methodOut = (\<lambda>t m. t),
      rangeMap = (\<lambda>m. m),
      bindStructField = (\<lambda>f t. None),
      argGet = (\<lambda>a bd s. Done [] s),
      Call = (\<lambda>f args. [])\<rparr>"

definition sampleBean :: "springBean \<Rightarrow> string \<Rightarrow> nat \<Rightarrow> beanStatus \<Rightarrow> bool \<Rightarrow> BeanDefinition" where
  "sampleBean b n k st p =
     \<lparr>bean = b, name = n, typeName = ''A'', rType = TPtr (TStruct ''A''),
      rValue = VPtr (TPtr (TStruct ''A'')) [k], status = st, primary = p, dependsOn = [],
      exports = [], init = False, cond = True, beanClass = ''bean'', caller = n\<rparr>"

definition slotA :: slot where
  "slotA = \<lparr>slotObj = [9], slotType = TPtr (TStruct ''A''), slotExported = True\<rparr>"

definition wiredContext :: state where
  "wiredContext =
     NewDefaultSpringContext
       \<lparr>beans := [sampleBean objectBean ''a1'' 1 beanStatus_Wired False,
                  sampleBean objectBean ''a2'' 2 beanStatus_Wired True,
                  sampleBean objectBean ''a3'' 3 beanStatus_Wired False],
        beanMap := [(\<lparr>key_rType = TPtr (TStruct ''A''), key_name = ''a1''\<rparr>, 0),
                    (\<lparr>key_rType = TPtr (TStruct ''A''), key_name = ''a2''\<rparr>, 1),
                    (\<lparr>key_rType = TPtr (TStruct ''A''), key_name = ''a3''\<rparr>, 2)],
        beanCache := [(TPtr (TStruct ''A''), [0, 1, 2])],
        autoWired := True\<rparr>"

definition cycleContext :: state where
  "cycleContext =
     NewDefaultSpringContext
       \<lparr>beans := [sampleBean (constructorBean ''NewA'') ''a1'' 1 beanStatus_Wiring False,
                  sampleBean objectBean ''a2'' 2 beanStatus_Wiring False],
        autoWired := True,
        stack := [plainBeanDefinition 1, plainBeanDefinition 0]\<rparr>"

lemmas sample_defs = sampleBean_def slotA_def wiredContext_def cycleContext_def
  NewDefaultSpringContext_def sampleEnv_def

text \<open>
  A constructor bean whose function returns a nil pointer, and the same with a struct
  type that has a field.
\<close>

definition nilEnv :: env where
  "nilEnv = sampleEnv\<lparr>Call := (\<lambda>f args. [VNil (TPtr (TStruct ''A''))])\<rparr>"

definition fieldEnv :: env where
  "fieldEnv = nilEnv\<lparr>structFields := (\<lambda>n. [\<lparr>fieldName = ''X'', fieldType = TBasic ''int'',
      tagValue = None, tagAutowire = None, fieldExported = True\<rparr>])\<rparr>"

definition constructorContext :: state where
  "constructorContext =
     NewDefaultSpringContext
       \<lparr>beans := [(sampleBean (constructorBean ''NewA'') ''a1'' 1 beanStatus_Resolved False)
                    \<lparr>rValue := VNil (TPtr (TStruct ''A''))\<rparr>],
        beanMap := [(\<lparr>key_rType = TPtr (TStruct ''A''), key_name = ''a1''\<rparr>, 0)],
        beanCache := [(TPtr (TStruct ''A''), [0])],
        autoWired := True\<rparr>"

text \<open>
  Two beans of which the first does not meet its condition, before and after
  \<^verbatim>\<open>AutoWireBeans\<close>.
\<close>

definition unmetBean :: BeanDefinition where
  "unmetBean = (sampleBean objectBean ''a1'' 1 beanStatus_Default False)\<lparr>cond := False\<rparr>"

definition metBean :: BeanDefinition where
  "metBean = sampleBean objectBean ''a2'' 2 beanStatus_Default False"

definition keyA :: "string \<Rightarrow> beanKey" where
  "keyA n = \<lparr>key_rType = TPtr (TStruct ''A''), key_name = n\<rparr>"

definition registeredContext :: state where
  "registeredContext =
     NewDefaultSpringContext\<lparr>beans := [unmetBean, metBean], beanMap := [(keyA ''a1'', 0), (keyA ''a2'', 1)]\<rparr>"

definition resolvedContext :: state where
  "resolvedContext =
     NewDefaultSpringContext
       \<lparr>beans := [unmetBean\<lparr>status := beanStatus_Deleted\<rparr>, metBean\<lparr>status := beanStatus_Wired\<rparr>],
        beanMap := [(keyA ''a2'', 1)],
        beanCache := [(TPtr (TStruct ''A''), [1])],
        autoWired := True,
        watched := [(plainBeanDefinition 1, WiringEvent_Push), (plainBeanDefinition 1, WiringEvent_Pop)]\<rparr>"

text \<open>
  Three resolved beans of one type, each primary or not, cached under their type; and a
  target that is an unexported field.
\<close>

definition lookupContext :: "bool \<Rightarrow> bool \<Rightarrow> bool \<Rightarrow> state" where
  "lookupContext p1 p2 p3 =
     NewDefaultSpringContext
       \<lparr>beans := [sampleBean objectBean ''a1'' 1 beanStatus_Resolved p1,
                  sampleBean objectBean ''a2'' 2 beanStatus_Resolved p2,
                  sampleBean objectBean ''a3'' 3 beanStatus_Resolved p3],
        beanMap := [(keyA ''a1'', 0), (keyA ''a2'', 1), (keyA ''a3'', 2)],
        beanCache := [(TPtr (TStruct ''A''), [0, 1, 2])],
        autoWired := True\<rparr>"

definition privateSlot :: slot where
  "privateSlot = \<lparr>slotObj = [9], slotType = TPtr (TStruct ''A''), slotExported = False\<rparr>"

lemmas lookup_defs = lookupContext_def privateSlot_def keyA_def sample_defs IsRefType_def
  isCandidate_def getCacheItem_def ParseBeanId_def Match_def getBean_def

text \<open>
  The order in which the wiring loops of \<^verbatim>\<open>AutoWireBeans\<close> are claimed to visit the
  beans of the map: the order of the \<^verbatim>\<open>range\<close> loop, sorted by bean id when \<^verbatim>\<open>Sort\<close>
  is set.
\<close>

definition wireOrder :: "env \<Rightarrow> state \<Rightarrow> ref list" where
  "wireOrder E s =
     (if Sort s
      then map snd (sort_key (\<lambda>kb. BeanId (getBean s (snd kb))) (rangeMap E (beanMap s)))
      else map snd (rangeMap E (beanMap s)))"

text \<open>
  A runtime whose \<^verbatim>\<open>range\<close> loop visits a map from its last entry to its first, and two
  beans registered one after the other.
\<close>

definition revEnv :: env where
  "revEnv = sampleEnv\<lparr>rangeMap := rev\<rparr>"

definition firstBean :: BeanDefinition where
  "firstBean = sampleBean objectBean ''a1'' 1 beanStatus_Default False"

definition secondBean :: BeanDefinition where
  "secondBean = sampleBean objectBean ''a2'' 2 beanStatus_Default False"

definition twoRegistered :: state where
  "twoRegistered =
     NewDefaultSpringContext\<lparr>beans := [firstBean, secondBean], beanMap := [(keyA ''a1'', 0), (keyA ''a2'', 1)]\<rparr>"



section \<open>Lemmas on the loops and the cache\<close>

lemma map_of_store:
  "map_of (map (\<lambda>(t', c). if t' = t then (t', c @ [r]) else (t', c)) xs) k =
     (if k = t then map_option (\<lambda>c. c @ [r]) (map_of xs t) else map_of xs k)"
  by (induction xs) auto

lemma map_of_snoc_None: "map_of xs t = None \<Longrightarrow> map_of (xs @ [(t, v)]) k = (if k = t then Some v else map_of xs k)"
  by (simp add: map_add_def split: option.splits)

lemma foldl_append_filter:
  "foldl (\<lambda>acc b. if P b then acc @ [b] else acc) a xs = a @ filter P xs"
  by (induction xs arbitrary: a) simp_all

lemma candidates_filter:
  "candidates E s beanType (fst (ParseBeanId E beanId)) (fst (snd (ParseBeanId E beanId))) parentValue =
     filter (isCandidate E s beanType beanId parentValue) (getCacheItem s beanType)"
  unfolding candidates_def isCandidate_def by (simp add: foldl_append_filter)

lemma primaries_filter: "primaries s result = filter (\<lambda>b. primary (getBean s b)) result"
  unfolding primaries_def by (simp add: foldl_append_filter)

lemma nullable_ParseBeanId:
  "snd (snd (ParseBeanId E beanId)) = (beanId \<noteq> [] \<and> last beanId = CHR ''?'')"
  by (simp add: ParseBeanId_def Let_def split: prod.splits)

lemma foldl_append_map: "foldl (\<lambda>acc b. acc @ [f b]) a xs = a @ map f xs"
  by (induction xs arbitrary: a) simp_all

lemma descriptions_map: "descriptions s bs = map (\<lambda>b. Description s (plainBeanDefinition b)) bs"
  unfolding descriptions_def by (simp add: foldl_append_map)

lemma getBeanValue_unfold:
  "getBeanValue E wire v beanId parentValue field s =
     (let result = filter (isCandidate E s (slotType v) beanId parentValue) (getCacheItem s (slotType v));
          primaryBeans = filter (\<lambda>b. primary (getBean s b)) result
      in
      if \<not> IsRefType (Kind (slotType v)) then Panic (ReceiverMustBeRefType beanId field) s
      else if result = []
      then (if beanId \<noteq> [] \<and> last beanId = CHR ''?'' then Done False s
            else Panic (CantFindBean beanId field (slotType v)) s)
      else if length primaryBeans > 1
      then Panic (FoundPrimaryBeans (length primaryBeans) beanId field (slotType v)
                    (map (\<lambda>b. Description s (plainBeanDefinition b)) primaryBeans)) s
      else if primaryBeans = [] \<and> length result > 1
      then Panic (FoundBeans (length result) beanId field (slotType v)
                    (map (\<lambda>b. Description s (plainBeanDefinition b)) result)) s
      else
        andThen (wire (plainBeanDefinition (hd (if primaryBeans = [] then result else primaryBeans))) False s)
          (\<lambda>_ s. andThen (setSlot v (rValue (getBean s (hd (if primaryBeans = [] then result else primaryBeans)))) s)
             (\<lambda>_ s. Done True s)))"
proof -
  obtain tn bn nl where p: "ParseBeanId E beanId = (tn, bn, nl)"
    by (cases "ParseBeanId E beanId") auto
  have c: "candidates E s (slotType v) tn bn parentValue =
     filter (isCandidate E s (slotType v) beanId parentValue) (getCacheItem s (slotType v))"
    using candidates_filter [of E s "slotType v" beanId parentValue] p by simp
  have n: "nl = (beanId \<noteq> [] \<and> last beanId = CHR ''?'')"
    using nullable_ParseBeanId [of E beanId] p by simp
  show ?thesis
    unfolding getBeanValue_def p
    by (simp add: c n primaries_filter descriptions_map Let_def)
qed





lemma getStatus_pushBack: "getStatus (pushBack bd s) r = getStatus s r"
  by (simp add: getStatus_def getBean_def pushBack_def)

lemma getBean_pushBack: "getBean (pushBack bd s) r = getBean s r"
  by (simp add: getBean_def pushBack_def)

lemma pathLine_pushBack: "pathLine (pushBack bd s) = pathLine s"
proof (intro ext)
  fix w show "pathLine (pushBack bd s) w = pathLine s w"
    by (cases w) (simp_all add: pathLine_def getBean_pushBack)
qed

text \<open>Which returned values the test of \<^verbatim>\<open>wireFunctionBean\<close> for nil finds.\<close>

lemma returned_nil_detected:
  "InterfaceIsNil (returnedValue old val fresh) =
     (if IsRefType (ValKind val) then val = VNil (TypeOf val) \<and> Kind (TypeOf val) = Interface
      else InterfaceIsNil old)"
  by (cases val) (auto simp: returnedValue_def IsRefType_def)

lemma wireFunctionBean_error:
  assumes "argGet E \<lparr>asmCollectBeans = collectBeans E wire, asmGetBeanValue = getBeanValue E wire\<rparr> bd s = Done in' s1"
    and "Call E fnValue in' = [val, err]" and "\<not> InterfaceIsNil err"
  shows "wireFunctionBean E wire fnValue bd s =
           Panic (FunctionBeanReturnError (caller (getBean s1 (refOf bd))) err) s1"
  using assms by (simp add: wireFunctionBean_def andThen_def Let_def)

section \<open>The invariant of the cache, and what wiring leaves alone\<close>

lemma stepBean_refl: "stepBean d d"
  by (simp add: stepBean_def)

lemma stepBean_trans: "stepBean d d' \<Longrightarrow> stepBean d' d'' \<Longrightarrow> stepBean d d''"
  unfolding stepBean_def frozen_def by auto

lemma step_refl: "step s s"
  by (simp add: step_def stepBean_refl)

lemma step_trans:
  assumes a: "step s s'" and b: "step s' s''"
  shows "step s s''"
proof -
  have len: "length (beans s) \<le> length (beans s')" "length (beans s') \<le> length (beans s'')"
    using a b by (simp_all add: step_def)
  have sb: "\<And>r. r < length (beans s) \<Longrightarrow> stepBean (beans s ! r) (beans s'' ! r)"
  proof -
    fix r assume r: "r < length (beans s)"
    then have "stepBean (beans s ! r) (beans s' ! r)" using a by (simp add: step_def)
    moreover have "stepBean (beans s' ! r) (beans s'' ! r)" using b r len by (simp add: step_def)
    ultimately show "stepBean (beans s ! r) (beans s'' ! r)" by (rule stepBean_trans)
  qed
  have sb': "\<And>r. r < length (beans s') \<Longrightarrow> stepBean (beans s' ! r) (beans s'' ! r)"
    using b by (simp add: step_def)
  have sb0: "\<And>r. r < length (beans s) \<Longrightarrow> stepBean (beans s ! r) (beans s' ! r)"
    using a by (simp add: step_def)
  have ca: "\<And>r. r \<in> cachedRefs s' \<Longrightarrow> r \<in> cachedRefs s
            \<or> ((r < length (beans s) \<longrightarrow> status (beans s ! r) = beanStatus_Default)
                \<and> r < length (beans s')
                \<and> status (beans s' ! r) \<noteq> beanStatus_Default
                \<and> status (beans s' ! r) \<noteq> beanStatus_Deleted)"
    using a by (simp add: step_def)
  have cb: "\<And>r. r \<in> cachedRefs s'' \<Longrightarrow> r \<in> cachedRefs s'
            \<or> ((r < length (beans s') \<longrightarrow> status (beans s' ! r) = beanStatus_Default)
                \<and> r < length (beans s'')
                \<and> status (beans s'' ! r) \<noteq> beanStatus_Default
                \<and> status (beans s'' ! r) \<noteq> beanStatus_Deleted)"
    using b by (simp add: step_def)
  have c: "\<And>r. r \<in> cachedRefs s'' \<Longrightarrow> r \<in> cachedRefs s
            \<or> ((r < length (beans s) \<longrightarrow> status (beans s ! r) = beanStatus_Default)
                \<and> r < length (beans s'')
                \<and> status (beans s'' ! r) \<noteq> beanStatus_Default
                \<and> status (beans s'' ! r) \<noteq> beanStatus_Deleted)"
  proof -
    fix r assume r: "r \<in> cachedRefs s''"
    show "r \<in> cachedRefs s
            \<or> ((r < length (beans s) \<longrightarrow> status (beans s ! r) = beanStatus_Default)
                \<and> r < length (beans s'')
                \<and> status (beans s'' ! r) \<noteq> beanStatus_Default
                \<and> status (beans s'' ! r) \<noteq> beanStatus_Deleted)"
    proof (cases "r \<in> cachedRefs s'")
      case True
      show ?thesis
      proof (cases "r \<in> cachedRefs s")
        case True then show ?thesis by simp
      next
        case False
        with ca [OF True] have h: "(r < length (beans s) \<longrightarrow> status (beans s ! r) = beanStatus_Default)"
          "r < length (beans s')" "status (beans s' ! r) \<noteq> beanStatus_Default"
          "status (beans s' ! r) \<noteq> beanStatus_Deleted" by auto
        from sb' [OF h(2)] h(3) h(4) have "status (beans s'' ! r) \<noteq> beanStatus_Default"
          "status (beans s'' ! r) \<noteq> beanStatus_Deleted" by (auto simp: stepBean_def)
        with h len show ?thesis by auto
      qed
    next
      case False
      with cb [OF r] have h: "(r < length (beans s') \<longrightarrow> status (beans s' ! r) = beanStatus_Default)"
          "r < length (beans s'')" "status (beans s'' ! r) \<noteq> beanStatus_Default"
          "status (beans s'' ! r) \<noteq> beanStatus_Deleted" by auto
      have "r < length (beans s) \<longrightarrow> status (beans s ! r) = beanStatus_Default"
      proof
        assume r': "r < length (beans s)"
        with h(1) len have "status (beans s' ! r) = beanStatus_Default" by simp
        with sb0 [OF r'] show "status (beans s ! r) = beanStatus_Default" by (auto simp: stepBean_def)
      qed
      with h show ?thesis by simp
    qed
  qed
  have m: "set (beanMap s'') \<subseteq> set (beanMap s)" "autoWired s'' = autoWired s"
    using a b by (auto simp: step_def)
  show ?thesis
    unfolding step_def using len sb c m by auto
qed

lemma cacheInv_step:
  assumes "cacheInv s" and a: "step s s'"
  shows "cacheInv s'"
  unfolding cacheInv_def getStatus_def getBean_def
proof
  fix r assume r: "r \<in> cachedRefs s'"
  have ca: "r \<in> cachedRefs s
            \<or> ((r < length (beans s) \<longrightarrow> status (beans s ! r) = beanStatus_Default)
                \<and> r < length (beans s')
                \<and> status (beans s' ! r) \<noteq> beanStatus_Default
                \<and> status (beans s' ! r) \<noteq> beanStatus_Deleted)"
    using a r by (simp add: step_def)
  show "r < length (beans s') \<and> status (beans s' ! r) \<noteq> beanStatus_Default
          \<and> status (beans s' ! r) \<noteq> beanStatus_Deleted"
  proof (cases "r \<in> cachedRefs s")
    case True
    with assms(1) have h: "r < length (beans s)" "status (beans s ! r) \<noteq> beanStatus_Default"
      "status (beans s ! r) \<noteq> beanStatus_Deleted"
      by (auto simp: cacheInv_def getStatus_def getBean_def)
    from a h(1) have "stepBean (beans s ! r) (beans s' ! r)" "length (beans s) \<le> length (beans s')"
      by (simp_all add: step_def)
    with h show ?thesis by (auto simp: stepBean_def)
  next
    case False
    with ca show ?thesis by simp
  qed
qed

lemma resolvedAll_step:
  assumes "resolvedAll s" and "step s s'"
  shows "resolvedAll s'"
  unfolding resolvedAll_def getStatus_def getBean_def
proof
  fix kb assume "kb \<in> set (beanMap s')"
  with assms(2) have kb: "kb \<in> set (beanMap s)" by (auto simp: step_def)
  with assms(1) have h: "snd kb < length (beans s)" "status (beans s ! snd kb) \<noteq> beanStatus_Default"
    by (auto simp: resolvedAll_def getStatus_def getBean_def)
  from assms(2) h(1) have "stepBean (beans s ! snd kb) (beans s' ! snd kb)" "length (beans s) \<le> length (beans s')"
    by (simp_all add: step_def)
  with h show "snd kb < length (beans s') \<and> status (beans s' ! snd kb) \<noteq> beanStatus_Default"
    by (auto simp: stepBean_def)
qed

lemma evolves_refl: "evolves s s"
  by (simp add: evolves_def step_refl quiet_def)

lemma evolves_trans: "evolves s s' \<Longrightarrow> evolves s' s'' \<Longrightarrow> evolves s s''"
  unfolding evolves_def quiet_def
  using step_trans cacheInv_step resolvedAll_step by metis

lemma post_andThen:
  assumes "post Q P r" and "\<And>a s. Q a s \<Longrightarrow> post Q' P' (f a s)" and "\<And>s. P s \<Longrightarrow> P' s"
  shows "post Q' P' (andThen r f)"
  using assms by (cases r) (simp_all add: post_def andThen_def)

lemma holds_andThen:
  assumes "holds I r" and "\<And>a s. I s \<Longrightarrow> holds I (f a s)"
  shows "holds I (andThen r f)"
  using assms unfolding holds_def by (cases r) (simp_all add: post_def andThen_def)

lemma holds_Done: "I s \<Longrightarrow> holds I (Done a s)"
  by (simp add: holds_def post_def)

lemma holds_Panic: "I s \<Longrightarrow> holds I (Panic e s)"
  by (simp add: holds_def post_def)

lemma holds_OutOfFuel: "holds I OutOfFuel"
  by (simp add: holds_def post_def)

lemma holds_mono: "holds I r \<Longrightarrow> (\<And>s. I s \<Longrightarrow> J s) \<Longrightarrow> holds J r"
  unfolding holds_def by (cases r) (simp_all add: post_def)

lemma holds_forEach:
  assumes "I s" and "\<And>x s. x \<in> set xs \<Longrightarrow> I s \<Longrightarrow> holds I (f x s)"
  shows "holds I (forEach xs f s)"
  using assms
proof (induction xs arbitrary: s)
  case Nil
  then show ?case by (simp add: holds_Done)
next
  case (Cons x xs)
  have h: "holds I (f x s)" using Cons.prems by simp
  have t: "\<And>a s'. I s' \<Longrightarrow> holds I (forEach xs f s')"
    using Cons.IH Cons.prems(2) by simp
  show ?case
    using holds_andThen [OF h, of "\<lambda>_. forEach xs f"] t by simp
qed

lemma holds_foldEach:
  assumes "I s" and "\<And>x a s. x \<in> set xs \<Longrightarrow> I s \<Longrightarrow> holds I (f x a s)"
  shows "holds I (foldEach xs f a s)"
  using assms
proof (induction xs arbitrary: s a)
  case Nil
  then show ?case by (simp add: holds_Done)
next
  case (Cons x xs)
  have h: "holds I (f x a s)" using Cons.prems by simp
  have t: "\<And>a s'. I s' \<Longrightarrow> holds I (foldEach xs f a s')"
    using Cons.IH Cons.prems(2) by simp
  show ?case
    using holds_andThen [OF h, of "foldEach xs f"] t by simp
qed

lemma step_same:
  assumes "step s0 s" and "beans s' = beans s" and "beanCache s' = beanCache s"
    and "set (beanMap s') \<subseteq> set (beanMap s)" and "autoWired s' = autoWired s"
  shows "step s0 s'"
  using assms unfolding step_def cachedRefs_def by auto

lemma step_setStatus:
  assumes a: "step s0 s" and nf: "r < length (beans s0) \<Longrightarrow> \<not> frozen (status (beans s0 ! r))"
    and st: "st \<noteq> beanStatus_Default" "st \<noteq> beanStatus_Deleted"
  shows "step s0 (setStatus r st s)"
proof -
  let ?s' = "setStatus r st s"
  have b: "beans ?s' = (beans s)[r := (beans s ! r)\<lparr>status := st\<rparr>]"
    "beanCache ?s' = beanCache s" "beanMap ?s' = beanMap s" "autoWired ?s' = autoWired s"
    by (simp_all add: setStatus_def getBean_def)
  have len: "length (beans s0) \<le> length (beans s)" using a by (simp add: step_def)
  have sb: "\<And>x. x < length (beans s0) \<Longrightarrow> stepBean (beans s0 ! x) (beans ?s' ! x)"
  proof -
    fix x assume x: "x < length (beans s0)"
    then have h: "stepBean (beans s0 ! x) (beans s ! x)" using a by (simp add: step_def)
    show "stepBean (beans s0 ! x) (beans ?s' ! x)"
    proof (cases "x = r")
      case True
      with x nf have "\<not> frozen (status (beans s0 ! r))" by simp
      with h True x len st show ?thesis by (simp add: b stepBean_def)
    next
      case False
      with h show ?thesis by (simp add: b)
    qed
  qed
  have c: "\<And>x. x \<in> cachedRefs ?s' \<Longrightarrow> x \<in> cachedRefs s0
            \<or> ((x < length (beans s0) \<longrightarrow> status (beans s0 ! x) = beanStatus_Default)
                \<and> x < length (beans ?s')
                \<and> status (beans ?s' ! x) \<noteq> beanStatus_Default
                \<and> status (beans ?s' ! x) \<noteq> beanStatus_Deleted)"
  proof -
    fix x assume "x \<in> cachedRefs ?s'"
    then have "x \<in> cachedRefs s" by (simp add: cachedRefs_def b)
    with a have "x \<in> cachedRefs s0
            \<or> ((x < length (beans s0) \<longrightarrow> status (beans s0 ! x) = beanStatus_Default)
                \<and> x < length (beans s)
                \<and> status (beans s ! x) \<noteq> beanStatus_Default
                \<and> status (beans s ! x) \<noteq> beanStatus_Deleted)"
      by (simp add: step_def)
    then show "x \<in> cachedRefs s0
            \<or> ((x < length (beans s0) \<longrightarrow> status (beans s0 ! x) = beanStatus_Default)
                \<and> x < length (beans ?s')
                \<and> status (beans ?s' ! x) \<noteq> beanStatus_Default
                \<and> status (beans ?s' ! x) \<noteq> beanStatus_Deleted)"
      using st by (cases "x = r") (auto simp: b)
  qed
  show ?thesis
    unfolding step_def using len sb c a by (auto simp: b step_def)
qed

lemma step_delete:
  assumes a: "step s0 s" and bd: "bd < length (beans s0)"
    and st: "status (beans s0 ! bd) = beanStatus_Default" and nc: "bd \<notin> cachedRefs s"
  shows "step s0 (deleteBeanDefinition bd s)"
proof -
  let ?s' = "deleteBeanDefinition bd s"
  have b: "beans ?s' = (beans s)[bd := (beans s ! bd)\<lparr>status := beanStatus_Deleted\<rparr>]"
    "beanCache ?s' = beanCache s" "set (beanMap ?s') \<subseteq> set (beanMap s)" "autoWired ?s' = autoWired s"
    by (auto simp add: deleteBeanDefinition_def setStatus_def getBean_def Let_def)
  have len: "length (beans s0) \<le> length (beans s)" using a by (simp add: step_def)
  have sb: "\<And>x. x < length (beans s0) \<Longrightarrow> stepBean (beans s0 ! x) (beans ?s' ! x)"
  proof -
    fix x assume x: "x < length (beans s0)"
    then have h: "stepBean (beans s0 ! x) (beans s ! x)" using a by (simp add: step_def)
    show "stepBean (beans s0 ! x) (beans ?s' ! x)"
    proof (cases "x = bd")
      case True
      with h x len st show ?thesis by (simp add: b stepBean_def frozen_def)
    next
      case False
      with h show ?thesis by (simp add: b)
    qed
  qed
  have c: "\<And>x. x \<in> cachedRefs ?s' \<Longrightarrow> x \<in> cachedRefs s0
            \<or> ((x < length (beans s0) \<longrightarrow> status (beans s0 ! x) = beanStatus_Default)
                \<and> x < length (beans ?s')
                \<and> status (beans ?s' ! x) \<noteq> beanStatus_Default
                \<and> status (beans ?s' ! x) \<noteq> beanStatus_Deleted)"
  proof -
    fix x assume "x \<in> cachedRefs ?s'"
    then have xs: "x \<in> cachedRefs s" by (simp add: cachedRefs_def b)
    with nc have ne: "x \<noteq> bd" by auto
    from xs a have "x \<in> cachedRefs s0
            \<or> ((x < length (beans s0) \<longrightarrow> status (beans s0 ! x) = beanStatus_Default)
                \<and> x < length (beans s)
                \<and> status (beans s ! x) \<noteq> beanStatus_Default
                \<and> status (beans s ! x) \<noteq> beanStatus_Deleted)"
      by (simp add: step_def)
    then show "x \<in> cachedRefs s0
            \<or> ((x < length (beans s0) \<longrightarrow> status (beans s0 ! x) = beanStatus_Default)
                \<and> x < length (beans ?s')
                \<and> status (beans ?s' ! x) \<noteq> beanStatus_Default
                \<and> status (beans ?s' ! x) \<noteq> beanStatus_Deleted)"
      using ne by (auto simp: b)
  qed
  show ?thesis
    unfolding step_def using len sb c a b by (auto simp: step_def)
qed

lemma cachedRefs_store:
  "cachedRefs (store t bd (snd (findCacheItem t s))) \<subseteq> insert bd (cachedRefs s)"
  by (auto simp: cachedRefs_def store_def findCacheItem_def newBeanCacheItem_def
      split: option.splits if_splits)

lemma step_store:
  assumes a: "step s0 s" and bd: "bd < length (beans s)"
    and st0: "bd < length (beans s0) \<Longrightarrow> status (beans s0 ! bd) = beanStatus_Default"
    and st: "status (beans s ! bd) \<noteq> beanStatus_Default" "status (beans s ! bd) \<noteq> beanStatus_Deleted"
  shows "step s0 (store t bd (snd (findCacheItem t s)))"
proof -
  let ?s' = "store t bd (snd (findCacheItem t s))"
  have b: "beans ?s' = beans s" "beanMap ?s' = beanMap s" "autoWired ?s' = autoWired s"
    by (simp_all add: store_def findCacheItem_def split: option.splits)
  have c: "\<And>x. x \<in> cachedRefs ?s' \<Longrightarrow> x \<in> cachedRefs s0
            \<or> ((x < length (beans s0) \<longrightarrow> status (beans s0 ! x) = beanStatus_Default)
                \<and> x < length (beans ?s')
                \<and> status (beans ?s' ! x) \<noteq> beanStatus_Default
                \<and> status (beans ?s' ! x) \<noteq> beanStatus_Deleted)"
  proof -
    fix x assume "x \<in> cachedRefs ?s'"
    then have "x = bd \<or> x \<in> cachedRefs s" using cachedRefs_store [of t bd s] by auto
    then show "x \<in> cachedRefs s0
            \<or> ((x < length (beans s0) \<longrightarrow> status (beans s0 ! x) = beanStatus_Default)
                \<and> x < length (beans ?s')
                \<and> status (beans ?s' ! x) \<noteq> beanStatus_Default
                \<and> status (beans ?s' ! x) \<noteq> beanStatus_Deleted)"
    proof
      assume "x = bd"
      with bd st0 st show ?thesis by (simp add: b)
    next
      assume "x \<in> cachedRefs s"
      with a show ?thesis by (simp add: step_def b)
    qed
  qed
  show ?thesis
    unfolding step_def using c a by (auto simp: b step_def)
qed

lemma step_newBean: "step s0 s \<Longrightarrow> step s0 (snd (newBean d s))"
  unfolding step_def newBean_def cachedRefs_def
  by (auto simp: nth_append)

lemma step_rValue:
  assumes a: "step s0 s"
    and nf: "r < length (beans s0) \<Longrightarrow> \<not> frozen (status (beans s0 ! r)) \<and> bean (beans s0 ! r) \<noteq> objectBean"
  shows "step s0 (s\<lparr>beans := (beans s)[r := (beans s ! r)\<lparr>rValue := v\<rparr>], allocated := k\<rparr>)"
proof -
  let ?s' = "s\<lparr>beans := (beans s)[r := (beans s ! r)\<lparr>rValue := v\<rparr>], allocated := k\<rparr>"
  have len: "length (beans s0) \<le> length (beans s)" using a by (simp add: step_def)
  have sb: "\<And>x. x < length (beans s0) \<Longrightarrow> stepBean (beans s0 ! x) (beans ?s' ! x)"
  proof -
    fix x assume x: "x < length (beans s0)"
    then have h: "stepBean (beans s0 ! x) (beans s ! x)" using a by (simp add: step_def)
    show "stepBean (beans s0 ! x) (beans ?s' ! x)"
    proof (cases "x = r")
      case True
      with x nf have "\<not> frozen (status (beans s0 ! r)) \<and> bean (beans s0 ! r) \<noteq> objectBean" by simp
      with h True x len show ?thesis by (simp add: stepBean_def)
    next
      case False
      with h show ?thesis by simp
    qed
  qed
  have c: "\<And>x. x \<in> cachedRefs ?s' \<Longrightarrow> x \<in> cachedRefs s0
            \<or> ((x < length (beans s0) \<longrightarrow> status (beans s0 ! x) = beanStatus_Default)
                \<and> x < length (beans ?s')
                \<and> status (beans ?s' ! x) \<noteq> beanStatus_Default
                \<and> status (beans ?s' ! x) \<noteq> beanStatus_Deleted)"
  proof -
    fix x assume "x \<in> cachedRefs ?s'"
    then have "x \<in> cachedRefs s" by (simp add: cachedRefs_def)
    with a have "x \<in> cachedRefs s0
            \<or> ((x < length (beans s0) \<longrightarrow> status (beans s0 ! x) = beanStatus_Default)
                \<and> x < length (beans s)
                \<and> status (beans s ! x) \<noteq> beanStatus_Default
                \<and> status (beans s ! x) \<noteq> beanStatus_Deleted)"
      by (simp add: step_def)
    then show "x \<in> cachedRefs s0
            \<or> ((x < length (beans s0) \<longrightarrow> status (beans s0 ! x) = beanStatus_Default)
                \<and> x < length (beans ?s')
                \<and> status (beans ?s' ! x) \<noteq> beanStatus_Default
                \<and> status (beans ?s' ! x) \<noteq> beanStatus_Deleted)"
      by (cases "x = r") auto
  qed
  show ?thesis
    unfolding step_def using len sb c a by (auto simp: step_def)
qed

lemma storeExport_step:
  assumes "step s0 s \<and> bd < length (beans s) \<and> status (beans s ! bd) \<noteq> beanStatus_Default
            \<and> status (beans s ! bd) \<noteq> beanStatus_Deleted"
    and "bd < length (beans s0) \<Longrightarrow> status (beans s0 ! bd) = beanStatus_Default"
  shows "holds (\<lambda>s'. step s0 s' \<and> bd < length (beans s') \<and> status (beans s' ! bd) \<noteq> beanStatus_Default
            \<and> status (beans s' ! bd) \<noteq> beanStatus_Deleted) (storeExport E bd t s)"
proof -
  have b: "beans (store t bd (snd (findCacheItem t s))) = beans s"
    by (simp add: store_def findCacheItem_def split: option.splits)
  show ?thesis
    unfolding storeExport_def using assms step_store [of s0 s bd t]
    by (simp add: holds_Done holds_Panic b)
qed

lemma resolveBean_step: "cacheInv s \<Longrightarrow> holds (step s) (resolveBean E bd s)"
proof (induction E bd s rule: resolveBean.induct)
  case (1 E bd s)
  note inv = \<open>cacheInv s\<close>
  show ?case
  proof (cases "length (beans s) \<le> bd \<or> statusRank (getStatus s bd) > statusRank beanStatus_Default")
    case True
    then show ?thesis
      by (auto simp add: resolveBean.simps [of E bd s] holds_Done holds_Panic step_refl)
  next
    case False
    then have bd: "bd < length (beans s)" and rk: "\<not> 0 < statusRank (getStatus s bd)" by auto
    from rk have st: "status (beans s ! bd) = beanStatus_Default"
      using statusRank_Default [of "getStatus s bd"] by (simp add: getStatus_def getBean_def)
    define s1 where "s1 = setStatus bd beanStatus_Resolving s"
    have s01: "step s s1"
      unfolding s1_def using st by (intro step_setStatus step_refl) (simp_all add: frozen_def)
    have inv1: "cacheInv s1" using inv s01 by (rule cacheInv_step)
    have b1: "beans s1 = (beans s)[bd := (beans s ! bd)\<lparr>status := beanStatus_Resolving\<rparr>]"
      "beanCache s1 = beanCache s"
      by (simp_all add: s1_def setStatus_def getBean_def)
    have nc1: "bd \<notin> cachedRefs s1"
      using inv st by (auto simp: cachedRefs_def b1 cacheInv_def getStatus_def getBean_def)
    have st1: "status (beans s1 ! bd) = beanStatus_Resolving" "bd < length (beans s1)"
      using bd by (simp_all add: b1)
    have gb1: "getBean s1 bd = (getBean s bd)\<lparr>status := beanStatus_Resolving\<rparr>"
      using bd by (simp add: getBean_def b1)
    define mid where "mid = (\<lambda>returned s3. step s s3 \<and> (\<not> returned \<longrightarrow> bd \<notin> cachedRefs s3
        \<and> bd < length (beans s3) \<and> status (beans s3 ! bd) \<noteq> beanStatus_Default
        \<and> status (beans s3 ! bd) \<noteq> beanStatus_Deleted))"
    define X where "X = (case bean (getBean s bd) of
             methodBean parent m \<Rightarrow>
               andThen (resolveBean E parent (setStatus bd beanStatus_Resolving s)) (\<lambda>_ s2.
                 if getStatus s2 parent = beanStatus_Deleted
                 then Done True (deleteBeanDefinition bd s2)
                 else Done False s2)
           | _ \<Rightarrow> Done False (setStatus bd beanStatus_Resolving s))"
    have after: "\<And>s2. step s1 s2 \<Longrightarrow> step s s2 \<and> bd \<notin> cachedRefs s2
        \<and> bd < length (beans s2) \<and> status (beans s2 ! bd) \<noteq> beanStatus_Default
        \<and> status (beans s2 ! bd) \<noteq> beanStatus_Deleted"
    proof -
      fix s2 assume a: "step s1 s2"
      have "step s s2" using s01 a by (rule step_trans)
      moreover have "bd \<notin> cachedRefs s2"
        using a nc1 st1 unfolding step_def by auto
      moreover have "stepBean (beans s1 ! bd) (beans s2 ! bd)" "length (beans s1) \<le> length (beans s2)"
        using a st1 by (simp_all add: step_def)
      ultimately show "step s s2 \<and> bd \<notin> cachedRefs s2
        \<and> bd < length (beans s2) \<and> status (beans s2 ! bd) \<noteq> beanStatus_Default
        \<and> status (beans s2 ! bd) \<noteq> beanStatus_Deleted"
        using st1 by (auto simp: stepBean_def)
    qed
    have X: "post mid (step s) X"
    proof (cases "bean (getBean s bd)")
      case (methodBean parent m)
      have ih: "holds (step s1) (resolveBean E parent s1)"
        using "1.IH" [OF _ _ methodBean] False inv1 by (simp add: s1_def)
      have X': "X = andThen (resolveBean E parent s1) (\<lambda>_ s2.
                 if getStatus s2 parent = beanStatus_Deleted
                 then Done True (deleteBeanDefinition bd s2)
                 else Done False s2)"
        by (simp add: X_def methodBean s1_def)
      show ?thesis
        unfolding X'
      proof (rule post_andThen [where Q = "\<lambda>_. step s1" and P = "step s1"])
        show "post (\<lambda>_. step s1) (step s1) (resolveBean E parent s1)"
          using ih by (simp add: holds_def)
      next
        fix a s2 assume a: "step s1 s2"
        note h = after [OF a]
        have "step s (deleteBeanDefinition bd s2)"
          using h bd st by (intro step_delete) simp_all
        then show "post mid (step s) (if getStatus s2 parent = beanStatus_Deleted
                 then Done True (deleteBeanDefinition bd s2) else Done False s2)"
          using h by (simp add: post_def mid_def)
      next
        fix s2 assume "step s1 s2"
        then show "step s s2" using s01 step_trans by blast
      qed
    next
      case objectBean
      then show ?thesis using after [OF step_refl] by (simp add: X_def post_def mid_def s1_def)
    next
      case (constructorBean x)
      then show ?thesis using after [OF step_refl] by (simp add: X_def post_def mid_def s1_def)
    next
      case (fakeMethodBean x y)
      then show ?thesis using after [OF step_refl] by (simp add: X_def post_def mid_def s1_def)
    next
      case unknownBean
      then show ?thesis using after [OF step_refl] by (simp add: X_def post_def mid_def s1_def)
    qed
    have R: "resolveBean E bd s = andThen X
          (\<lambda>returned s3.
             if returned then Done () s3
             else if \<not> cond (getBean s3 bd) then Done () (deleteBeanDefinition bd s3)
             else
               andThen
                 (forEach (exports (getBean s3 bd)) (storeExport E bd)
                    (store (rType (getBean s3 bd)) bd (snd (findCacheItem (rType (getBean s3 bd)) s3))))
                 (\<lambda>_ s6. Done () (setStatus bd beanStatus_Resolved s6)))"
      using False by (simp add: resolveBean.simps [of E bd s] X_def)
    show ?thesis
      unfolding R holds_def
    proof (rule post_andThen [OF X])
      fix returned s3 assume m: "mid returned s3"
      show "post (\<lambda>a. step s) (step s)
          (if returned then Done () s3
             else if \<not> cond (getBean s3 bd) then Done () (deleteBeanDefinition bd s3)
             else
               andThen
                 (forEach (exports (getBean s3 bd)) (storeExport E bd)
                    (store (rType (getBean s3 bd)) bd (snd (findCacheItem (rType (getBean s3 bd)) s3))))
                 (\<lambda>_ s6. Done () (setStatus bd beanStatus_Resolved s6)))"
      proof (cases returned)
        case True
        with m show ?thesis by (simp add: post_def mid_def)
      next
        case False
        with m have h: "step s s3" "bd \<notin> cachedRefs s3" "bd < length (beans s3)"
          "status (beans s3 ! bd) \<noteq> beanStatus_Default" "status (beans s3 ! bd) \<noteq> beanStatus_Deleted"
          by (simp_all add: mid_def)
        show ?thesis
        proof (cases "cond (getBean s3 bd)")
          case c: False
          have "step s (deleteBeanDefinition bd s3)"
            using h bd st by (intro step_delete) simp_all
          with False c show ?thesis by (simp add: post_def)
        next
          case c: True
          define J where "J = (\<lambda>s'. step s s' \<and> bd < length (beans s') \<and> status (beans s' ! bd) \<noteq> beanStatus_Default
            \<and> status (beans s' ! bd) \<noteq> beanStatus_Deleted)"
          let ?s5 = "store (rType (getBean s3 bd)) bd (snd (findCacheItem (rType (getBean s3 bd)) s3))"
          have b5: "beans ?s5 = beans s3"
            by (simp add: store_def findCacheItem_def split: option.splits)
          have "step s ?s5" using h st by (intro step_store) simp_all
          then have J5: "J ?s5" using h by (simp add: J_def b5)
          have loop: "holds J (forEach (exports (getBean s3 bd)) (storeExport E bd) ?s5)"
          proof (rule holds_forEach [where I = J])
            show "J ?s5" by (rule J5)
          next
            fix x s' assume "J s'"
            then show "holds J (storeExport E bd x s')"
              unfolding J_def using storeExport_step [of s s' bd E x] st by simp
          qed
          have "post (\<lambda>a. step s) (step s)
                  (andThen (forEach (exports (getBean s3 bd)) (storeExport E bd) ?s5)
                     (\<lambda>_ s6. Done () (setStatus bd beanStatus_Resolved s6)))"
          proof (rule post_andThen [where Q = "\<lambda>_. J" and P = J])
            show "post (\<lambda>_. J) J (forEach (exports (getBean s3 bd)) (storeExport E bd) ?s5)"
              using loop by (simp add: holds_def)
          next
            fix a s6 assume "J s6"
            then have "step s (setStatus bd beanStatus_Resolved s6)"
              unfolding J_def using st by (intro step_setStatus) (simp_all add: frozen_def)
            then show "post (\<lambda>a. step s) (step s) (Done () (setStatus bd beanStatus_Resolved s6))"
              by (simp add: post_def)
          next
            fix s6 assume "J s6" then show "step s s6" by (simp add: J_def)
          qed
          with False c show ?thesis by simp
        qed
      qed
    next
      fix s' assume "step s s'" then show "step s s'" .
    qed
  qed
qed

lemma resolveBean_resolved:
  "bd < length (beans s) \<Longrightarrow> getStatus s bd \<noteq> beanStatus_Default \<Longrightarrow> resolveBean E bd s = Done () s"
  by (cases "getStatus s bd") (simp_all add: resolveBean.simps [of E bd s])

lemma holds_True: "holds (\<lambda>s. True) r"
  by (cases r) (simp_all add: holds_def post_def)

lemma holds_evolves_cases:
  assumes "cacheInv s \<Longrightarrow> holds (evolves s) r"
  shows "holds (evolves s) r"
proof (cases "cacheInv s")
  case True
  then show ?thesis by (rule assms)
next
  case False
  then have "evolves s = (\<lambda>s'. True)" by (intro ext) (simp add: evolves_def)
  then show ?thesis by (simp add: holds_True)
qed

lemma holds_evolves_trans:
  assumes "evolves s s'" and "holds (evolves s') r"
  shows "holds (evolves s) r"
  using assms(2) by (rule holds_mono) (rule evolves_trans [OF assms(1)])

lemma evolves_andThen:
  assumes "holds (evolves s) r" and "\<And>a s'. holds (evolves s') (f a s')"
  shows "holds (evolves s) (andThen r f)"
  using assms(1)
proof (rule holds_andThen)
  fix a s' assume "evolves s s'"
  then show "holds (evolves s) (f a s')" using assms(2) by (rule holds_evolves_trans)
qed

lemma evolves_forEach:
  assumes "\<And>x s'. x \<in> set xs \<Longrightarrow> holds (evolves s') (f x s')"
  shows "holds (evolves s) (forEach xs f s)"
proof (rule holds_forEach [where I = "evolves s"])
  show "evolves s s" by (rule evolves_refl)
next
  fix x s' assume "x \<in> set xs" "evolves s s'"
  then show "holds (evolves s) (f x s')" using assms holds_evolves_trans by blast
qed

lemma evolves_foldEach:
  assumes "\<And>x a s'. x \<in> set xs \<Longrightarrow> holds (evolves s') (f x a s')"
  shows "holds (evolves s) (foldEach xs f a s)"
proof (rule holds_foldEach [where I = "evolves s"])
  show "evolves s s" by (rule evolves_refl)
next
  fix x a s' assume "x \<in> set xs" "evolves s s'"
  then show "holds (evolves s) (f x a s')" using assms holds_evolves_trans by blast
qed

lemma evolves_same:
  assumes "evolves s0 s" and "beans s' = beans s" and "beanCache s' = beanCache s"
    and "beanMap s' = beanMap s" and "autoWired s' = autoWired s"
  shows "evolves s0 s'"
  using assms step_same [of s0 s s'] by (auto simp: evolves_def quiet_def)

lemma evolves_setStatus:
  assumes "evolves s0 s" and "r < length (beans s0) \<Longrightarrow> \<not> frozen (status (beans s0 ! r))"
    and "st \<noteq> beanStatus_Default" "st \<noteq> beanStatus_Deleted"
  shows "evolves s0 (setStatus r st s)"
  using assms step_setStatus [of s0 s r st]
  by (auto simp: evolves_def quiet_def setStatus_def)

lemma evolves_newBean: "evolves s0 s \<Longrightarrow> evolves s0 (snd (newBean d s))"
  using step_newBean [of s0 s d] by (auto simp: evolves_def quiet_def newBean_def)

lemma evolves_rValue:
  assumes "evolves s0 s"
    and "r < length (beans s0) \<Longrightarrow> \<not> frozen (status (beans s0 ! r)) \<and> bean (beans s0 ! r) \<noteq> objectBean"
  shows "evolves s0 (s\<lparr>beans := (beans s)[r := (beans s ! r)\<lparr>rValue := v\<rparr>], allocated := k\<rparr>)"
  using assms step_rValue [where ?s0.0 = s0 and s = s and r = r and v = v and k = k]
  by (auto simp: evolves_def quiet_def)

lemma resolveBean_evolves:
  assumes "kb \<in> set (beanMap s)"
  shows "holds (evolves s) (resolveBean E (snd kb) s)"
proof (rule holds_evolves_cases)
  assume inv: "cacheInv s"
  show "holds (evolves s) (resolveBean E (snd kb) s)"
  proof (cases "resolvedAll s")
    case True
    with assms have "snd kb < length (beans s)" "getStatus s (snd kb) \<noteq> beanStatus_Default"
      by (auto simp: resolvedAll_def)
    then have "resolveBean E (snd kb) s = Done () s" by (rule resolveBean_resolved)
    then show ?thesis by (simp add: holds_Done evolves_refl)
  next
    case False
    have "holds (step s) (resolveBean E (snd kb) s)" using inv by (rule resolveBean_step)
    then show ?thesis by (rule holds_mono) (simp add: evolves_def False)
  qed
qed

lemma finderStep_evolves: "holds (evolves s) (finderStep E fn kb result s)"
  unfolding finderStep_def
  by (auto intro!: evolves_andThen resolveBean_evolves simp: holds_Done evolves_refl)

lemma finder_evolves: "holds (evolves s) (finder E fn s)"
  unfolding finder_def by (rule evolves_foldEach) (rule finderStep_evolves)

lemma FindBean_evolves: "holds (evolves s) (FindBean E selector' s)"
  unfolding FindBean_def checkAutoWired_def
  by (auto intro!: evolves_andThen finder_evolves simp: holds_Done holds_Panic evolves_refl Let_def)

lemma setSlot_evolves: "holds (evolves s) (setSlot v x s)"
proof -
  have "evolves s (s\<lparr>written := written s @ [(v, x)]\<rparr>)"
    by (rule evolves_same [OF evolves_refl]) simp_all
  then show ?thesis
    unfolding setSlot_def by (simp add: holds_Done holds_Panic evolves_refl)
qed

lemma getBeanValue_evolves:
  assumes "wiringOK wire"
  shows "holds (evolves s) (getBeanValue E wire v beanId parentValue field s)"
proof -
  have w: "\<And>bd a s. holds (evolves s) (wire bd a s)" using assms by (simp add: wiringOK_def)
  show ?thesis
    unfolding getBeanValue_def
    by (auto intro!: evolves_andThen w setSlot_evolves
        simp: holds_Done holds_Panic evolves_refl Let_def split: prod.splits)
qed

lemma wireValue_evolves:
  assumes "wiringOK wire"
  shows "holds (evolves s) (wireValue E wire v site s)"
proof -
  have w: "\<And>bd a s. holds (evolves s) (wire bd a s)" using assms by (simp add: wiringOK_def)
  obtain b s1 where n: "newBean (ValueToBeanDefinition E [] v site) s = (b, s1)"
    by (cases "newBean (ValueToBeanDefinition E [] v site) s") auto
  have "evolves s (snd (newBean (ValueToBeanDefinition E [] v site) s))"
    by (rule evolves_newBean [OF evolves_refl])
  then have "evolves s s1" by (simp add: n)
  then have "holds (evolves s) (wire (plainBeanDefinition b) False s1)"
    using w by (rule holds_evolves_trans)
  then show ?thesis
    unfolding wireValue_def by (simp add: n)
qed

lemma wireElement_evolves:
  assumes "wiringOK wire"
  shows "holds (evolves s) (wireElement E wire d di s)"
  unfolding wireElement_def
  by (auto intro!: wireValue_evolves assms simp: holds_Done evolves_refl)

lemma copyElements_evolves:
  assumes "wiringOK wire"
  shows "holds (evolves s) (copyElements E wire d is ev s)"
proof (induction "is" arbitrary: ev s)
  case Nil
  then show ?case by (simp add: holds_Done evolves_refl)
next
  case (Cons i "is")
  show ?case
    by (auto intro!: evolves_andThen wireElement_evolves assms Cons simp: holds_Done evolves_refl Let_def)
qed

lemma collectSlice_evolves:
  assumes "wiringOK wire"
  shows "holds (evolves s) (collectSlice E wire d ev s)"
  unfolding collectSlice_def
  by (auto intro!: evolves_andThen wireElement_evolves copyElements_evolves assms
      simp: holds_Done holds_Panic evolves_refl Let_def)

lemma collectSingle_evolves:
  assumes "wiringOK wire"
  shows "holds (evolves s) (collectSingle wire d ev s)"
proof -
  have w: "\<And>bd a s. holds (evolves s) (wire bd a s)" using assms by (simp add: wiringOK_def)
  show ?thesis
    unfolding collectSingle_def
    by (auto intro!: evolves_andThen w simp: holds_Done evolves_refl)
qed

lemma collectBeans_evolves:
  assumes "wiringOK wire"
  shows "holds (evolves s) (collectBeans E wire v s)"
  unfolding collectBeans_def
  by (auto intro!: evolves_andThen evolves_foldEach collectSlice_evolves collectSingle_evolves
      setSlot_evolves assms simp: holds_Done evolves_refl Let_def)

lemma wireStructField_evolves:
  assumes "wiringOK wire"
  shows "holds (evolves s) (wireStructField E wire parentValue beanValue field beanId s)"
  unfolding wireStructField_def
  by (auto intro!: evolves_andThen collectBeans_evolves getBeanValue_evolves assms
      simp: holds_Done holds_Panic evolves_refl Let_def split: prod.splits)

lemma wireField_evolves:
  assumes "wiringOK wire"
  shows "holds (evolves s) (wireField E wire bd onlyAutoWire sv ev etName ift s)"
proof -
  have w: "\<And>bd a s. holds (evolves s) (wire bd a s)" using assms by (simp add: wiringOK_def)
  have n: "\<And>d f a s. holds (evolves s) (case newBean d s of (b, s1) \<Rightarrow> wire (fieldBeanDefinition b f) a s1)"
  proof -
    fix d f a s
    obtain b s1 where n: "newBean d s = (b, s1)" by (cases "newBean d s") auto
    have "evolves s (snd (newBean d s))" by (rule evolves_newBean [OF evolves_refl])
    then have "evolves s s1" by (simp add: n)
    then have "holds (evolves s) (wire (fieldBeanDefinition b f) a s1)"
      using w by (rule holds_evolves_trans)
    then show "holds (evolves s) (case newBean d s of (b, s1) \<Rightarrow> wire (fieldBeanDefinition b f) a s1)"
      by (simp add: n)
  qed
  show ?thesis
    unfolding wireField_def
    by (auto intro!: evolves_andThen wireStructField_evolves assms n
        simp: holds_Done holds_Panic evolves_refl Let_def split: option.splits)
qed

lemma wireObjectBean_evolves:
  assumes "wiringOK wire"
  shows "holds (evolves s) (wireObjectBean E wire bd onlyAutoWire s)"
  unfolding wireObjectBean_def
  by (auto intro!: evolves_forEach wireValue_evolves wireField_evolves assms
      simp: holds_Done evolves_refl Let_def)

lemma wireFunctionBean_evolves:
  assumes w: "wiringOK wire" and e: "envOK E" and s0: "evolves s0 s"
    and nf: "refOf bd < length (beans s0) \<Longrightarrow>
               \<not> frozen (status (beans s0 ! refOf bd)) \<and> bean (beans s0 ! refOf bd) \<noteq> objectBean"
  shows "holds (evolves s0) (wireFunctionBean E wire fnValue bd s)"
proof -
  have wr: "\<And>bd a s. holds (evolves s) (wire bd a s)" using w by (simp add: wiringOK_def)
  have asm: "assemblyOK \<lparr>asmCollectBeans = collectBeans E wire, asmGetBeanValue = getBeanValue E wire\<rparr>"
    by (simp add: assemblyOK_def collectBeans_evolves getBeanValue_evolves w)
  have a: "holds (evolves s0)
      (argGet E \<lparr>asmCollectBeans = collectBeans E wire, asmGetBeanValue = getBeanValue E wire\<rparr> bd s)"
    using e asm s0 holds_evolves_trans by (simp add: envOK_def) blast
  show ?thesis
    unfolding wireFunctionBean_def
    using a
  proof (rule holds_andThen)
    fix in' s1 assume s1: "evolves s0 s1"
    let ?out = "Call E fnValue in'"
    let ?r = "refOf bd"
    let ?new = "returnedValue (rValue (getBean s1 ?r)) (?out ! 0) (allocated s1)"
    let ?k = "(if ValKind (?out ! 0) = Interface \<and> ValKind (ValElem (?out ! 0)) = Struct
               then Suc (allocated s1) else allocated s1)"
    let ?s1' = "s1\<lparr>beans := (beans s1)[?r := (getBean s1 ?r)\<lparr>rValue := ?new\<rparr>], allocated := ?k\<rparr>"
    have u: "evolves s0 ?s1'"
      unfolding getBean_def using s1 nf by (rule evolves_rValue)
    have n: "\<And>d. holds (evolves s0) (case newBean d ?s1' of (b, s2) \<Rightarrow> wire (delegateBeanDefinition b bd) False s2)"
    proof -
      fix d
      obtain b s2 where n: "newBean d ?s1' = (b, s2)" by (cases "newBean d ?s1'") auto
      have "evolves s0 (snd (newBean d ?s1'))" using u by (rule evolves_newBean)
      then have "evolves s0 s2" by (simp add: n)
      then have "holds (evolves s0) (wire (delegateBeanDefinition b bd) False s2)"
        using wr by (rule holds_evolves_trans)
      then show "holds (evolves s0) (case newBean d ?s1' of (b, s2) \<Rightarrow> wire (delegateBeanDefinition b bd) False s2)"
        by (simp add: n)
    qed
    show "holds (evolves s0)
          (let out = Call E fnValue in' in
          if out = [] then Panic (RuntimePanic ''index out of range [0] with length 0'') s1
          else
            let val = out ! 0 in
            if length out = 2 \<and> \<not> InterfaceIsNil (out ! 1)
            then Panic (FunctionBeanReturnError (caller (getBean s1 (refOf bd))) (out ! 1)) s1
            else
              let r = refOf bd;
                  new = returnedValue (rValue (getBean s1 r)) val (allocated s1);
                  s1' = s1\<lparr>beans := (beans s1)[r := (getBean s1 r)\<lparr>rValue := new\<rparr>],
                         allocated := (if ValKind val = Interface \<and> ValKind (ValElem val) = Struct
                                       then Suc (allocated s1) else allocated s1)\<rparr>
              in
              if InterfaceIsNil new
              then Panic (FunctionBeanReturnNil (caller (getBean s1' r))) s1'
              else
                let v = (if Kind (rType (getBean s1' r)) = Interface then ValElem new else new);
                    (b, s2) = newBean
                      (\<lparr>bean = objectBean, name = name (getBean s1' r),
                        typeName = TypeName E (TypeOf v), rType = TypeOf v, rValue = v,
                        status = beanStatus_Default, primary = False, dependsOn = [],
                        exports = [], init = False, cond = True,
                        beanClass = ''object bean'', caller = caller (getBean s1' r)\<rparr>) s1'
                in wire (delegateBeanDefinition b bd) False s2)"
      unfolding Let_def using s1 u n
      by (simp add: holds_Panic)
  qed
qed

lemma wireDependsOn_evolves:
  assumes "wiringOK wire"
  shows "holds (evolves s) (wireDependsOn E wire selector' s)"
proof -
  have w: "\<And>bd a s. holds (evolves s) (wire bd a s)" using assms by (simp add: wiringOK_def)
  show ?thesis
    unfolding wireDependsOn_def
    by (auto intro!: evolves_andThen FindBean_evolves w
        simp: holds_Done holds_Panic evolves_refl split: option.splits)
qed

lemma finish_evolves:
  assumes "evolves s0 s5" and "r < length (beans s0) \<Longrightarrow> \<not> frozen (status (beans s0 ! r))"
  shows "holds (evolves s0) (andThen (popBack (callInit r s5))
           (\<lambda>_ s7. Done () (setStatus r beanStatus_Wired s7)))"
proof -
  have c: "evolves s0 (callInit r s5)"
    using assms(1) by (rule evolves_same) (simp_all add: callInit_def)
  have p: "holds (evolves s0) (popBack (callInit r s5))"
    unfolding popBack_def
    using c evolves_same [OF c, of "(callInit r s5)\<lparr>stack := butlast (stack (callInit r s5)),
                      watched := watched (callInit r s5) @ [(last (stack (callInit r s5)), WiringEvent_Pop)]\<rparr>"]
    by (simp add: holds_Done holds_Panic)
  show ?thesis
    using p
  proof (rule holds_andThen)
    fix a s7 assume "evolves s0 s7"
    then have "evolves s0 (setStatus r beanStatus_Wired s7)"
      using assms(2) by (rule evolves_setStatus) simp_all
    then show "holds (evolves s0) (Done () (setStatus r beanStatus_Wired s7))"
      by (rule holds_Done)
  qed
qed

lemma provider_evolves:
  assumes w: "wiringOK wire" and e: "envOK E" and inv: "cacheInv s0" and s4: "evolves s0 s4"
    and nf: "refOf bd < length (beans s0) \<Longrightarrow> \<not> frozen (status (beans s0 ! refOf bd))"
  shows "holds (evolves s0)
           (case bean (getBean s4 (refOf bd)) of
              objectBean \<Rightarrow> wireObjectBean E wire bd onlyAutoWire s4
            | constructorBean fn \<Rightarrow> wireFunctionBean E wire (FnConstructor fn) bd s4
            | methodBean parent m \<Rightarrow>
                wireFunctionBean E wire (FnMethod (rValue (getBean s4 parent)) m) bd s4
            | _ \<Rightarrow> Panic UnknownSpringBeanType s4)"
proof -
  have st: "step s0 s4" using inv s4 by (simp add: evolves_def)
  have same: "refOf bd < length (beans s0) \<Longrightarrow> bean (beans s4 ! refOf bd) = bean (beans s0 ! refOf bd)"
    using st by (simp add: step_def stepBean_def)
  show ?thesis
  proof (cases "bean (getBean s4 (refOf bd))")
    case objectBean
    have "holds (evolves s0) (wireObjectBean E wire bd onlyAutoWire s4)"
      using s4 wireObjectBean_evolves [OF w] by (rule holds_evolves_trans)
    with objectBean show ?thesis by simp
  next
    case (constructorBean fn)
    have "holds (evolves s0) (wireFunctionBean E wire (FnConstructor fn) bd s4)"
      using w e s4
    proof (rule wireFunctionBean_evolves)
      assume "refOf bd < length (beans s0)"
      with nf same constructorBean
      show "\<not> frozen (status (beans s0 ! refOf bd)) \<and> bean (beans s0 ! refOf bd) \<noteq> objectBean"
        by (simp add: getBean_def)
    qed
    with constructorBean show ?thesis by simp
  next
    case (methodBean parent m)
    have "holds (evolves s0) (wireFunctionBean E wire (FnMethod (rValue (getBean s4 parent)) m) bd s4)"
      using w e s4
    proof (rule wireFunctionBean_evolves)
      assume "refOf bd < length (beans s0)"
      with nf same methodBean
      show "\<not> frozen (status (beans s0 ! refOf bd)) \<and> bean (beans s0 ! refOf bd) \<noteq> objectBean"
        by (simp add: getBean_def)
    qed
    with methodBean show ?thesis by simp
  next
    case (fakeMethodBean x y)
    then show ?thesis using s4 by (simp add: holds_Panic)
  next
    case unknownBean
    then show ?thesis using s4 by (simp add: holds_Panic)
  qed
qed

lemma wireBeanDefinitionBody_evolves:
  assumes w: "wiringOK wire" and e: "envOK E"
  shows "holds (evolves s) (wireBeanDefinitionBody E wire bd onlyAutoWire s)"
proof (rule holds_evolves_cases)
  assume inv: "cacheInv s"
  have wr: "\<And>bd a s. holds (evolves s) (wire bd a s)" using w by (simp add: wiringOK_def)
  let ?r = "refOf bd"
  let ?s1 = "pushBack bd s"
  let ?s2 = "setStatus ?r beanStatus_Wiring ?s1"
  have e1: "evolves s ?s1"
    by (rule evolves_same [OF evolves_refl]) (simp_all add: pushBack_def)
  show "holds (evolves s) (wireBeanDefinitionBody E wire bd onlyAutoWire s)"
  proof (cases "frozen (getStatus s ?r)")
    case True
    then show ?thesis
      unfolding wireBeanDefinitionBody_def Let_def getStatus_pushBack getBean_pushBack
      using e1 by (auto simp: frozen_def holds_Done holds_Panic evolves_refl)
  next
    case False
    then have nf: "?r < length (beans s) \<Longrightarrow> \<not> frozen (status (beans s ! ?r))"
      by (simp add: getStatus_def getBean_def)
    have e2: "evolves s ?s2"
      using e1 nf by (rule evolves_setStatus) simp_all
    have rest: "holds (evolves s)
       (andThen (forEach (dependsOn (getBean ?s2 ?r)) (wireDependsOn E wire) ?s2) (\<lambda>_ s.
            andThen
              (case bean (getBean s ?r) of
                 methodBean parent m \<Rightarrow> wire (plainBeanDefinition parent) False s
               | _ \<Rightarrow> Done () s)
              (\<lambda>_ s.
                 andThen
                   (case bean (getBean s ?r) of
                      objectBean \<Rightarrow> wireObjectBean E wire bd onlyAutoWire s
                    | constructorBean fn \<Rightarrow> wireFunctionBean E wire (FnConstructor fn) bd s
                    | methodBean parent m \<Rightarrow>
                        wireFunctionBean E wire (FnMethod (rValue (getBean s parent)) m) bd s
                    | _ \<Rightarrow> Panic UnknownSpringBeanType s)
                   (\<lambda>_ s.
                      andThen (popBack (callInit ?r s)) (\<lambda>_ s.
                        Done () (setStatus ?r beanStatus_Wired s))))))"
    proof (rule holds_andThen)
      show "holds (evolves s) (forEach (dependsOn (getBean ?s2 ?r)) (wireDependsOn E wire) ?s2)"
        using e2
      proof (rule holds_evolves_trans)
        show "holds (evolves ?s2) (forEach (dependsOn (getBean ?s2 ?r)) (wireDependsOn E wire) ?s2)"
          by (rule evolves_forEach) (rule wireDependsOn_evolves [OF w])
      qed
    next
      fix a s3 assume s3: "evolves s s3"
      show "holds (evolves s)
            (andThen
              (case bean (getBean s3 ?r) of
                 methodBean parent m \<Rightarrow> wire (plainBeanDefinition parent) False s3
               | _ \<Rightarrow> Done () s3)
              (\<lambda>_ s.
                 andThen
                   (case bean (getBean s ?r) of
                      objectBean \<Rightarrow> wireObjectBean E wire bd onlyAutoWire s
                    | constructorBean fn \<Rightarrow> wireFunctionBean E wire (FnConstructor fn) bd s
                    | methodBean parent m \<Rightarrow>
                        wireFunctionBean E wire (FnMethod (rValue (getBean s parent)) m) bd s
                    | _ \<Rightarrow> Panic UnknownSpringBeanType s)
                   (\<lambda>_ s.
                      andThen (popBack (callInit ?r s)) (\<lambda>_ s.
                        Done () (setStatus ?r beanStatus_Wired s)))))"
      proof (rule holds_andThen)
        have "\<And>p. holds (evolves s) (wire (plainBeanDefinition p) False s3)"
          using s3 wr by (rule holds_evolves_trans)
        then show "holds (evolves s)
              (case bean (getBean s3 ?r) of
                 methodBean parent m \<Rightarrow> wire (plainBeanDefinition parent) False s3
               | _ \<Rightarrow> Done () s3)"
          using s3 by (simp add: holds_Done split: springBean.splits)
      next
        fix a s4 assume s4: "evolves s s4"
        show "holds (evolves s)
                (andThen
                   (case bean (getBean s4 ?r) of
                      objectBean \<Rightarrow> wireObjectBean E wire bd onlyAutoWire s4
                    | constructorBean fn \<Rightarrow> wireFunctionBean E wire (FnConstructor fn) bd s4
                    | methodBean parent m \<Rightarrow>
                        wireFunctionBean E wire (FnMethod (rValue (getBean s4 parent)) m) bd s4
                    | _ \<Rightarrow> Panic UnknownSpringBeanType s4)
                   (\<lambda>_ s.
                      andThen (popBack (callInit ?r s)) (\<lambda>_ s.
                        Done () (setStatus ?r beanStatus_Wired s))))"
        proof (rule holds_andThen)
          show "holds (evolves s)
                   (case bean (getBean s4 ?r) of
                      objectBean \<Rightarrow> wireObjectBean E wire bd onlyAutoWire s4
                    | constructorBean fn \<Rightarrow> wireFunctionBean E wire (FnConstructor fn) bd s4
                    | methodBean parent m \<Rightarrow>
                        wireFunctionBean E wire (FnMethod (rValue (getBean s4 parent)) m) bd s4
                    | _ \<Rightarrow> Panic UnknownSpringBeanType s4)"
            using w e inv s4 nf by (rule provider_evolves)
        next
          fix a s5 assume "evolves s s5"
          then show "holds (evolves s) (andThen (popBack (callInit ?r s5)) (\<lambda>_ s.
                        Done () (setStatus ?r beanStatus_Wired s)))"
            using nf by (rule finish_evolves)
        qed
      qed
    qed
    from False have "getStatus s ?r \<noteq> beanStatus_Deleted" "getStatus s ?r \<noteq> beanStatus_Wired"
      "getStatus s ?r \<noteq> beanStatus_Wiring" by (simp_all add: frozen_def)
    then show ?thesis
      unfolding wireBeanDefinitionBody_def Let_def getStatus_pushBack
      using rest by simp
  qed
qed

lemma wireBeanDefinition_evolves:
  assumes "envOK E"
  shows "holds (evolves s) (wireBeanDefinition E n bd onlyAutoWire s)"
proof (induction n arbitrary: bd onlyAutoWire s)
  case 0
  then show ?case by (simp add: holds_OutOfFuel)
next
  case (Suc n)
  then have "wiringOK (wireBeanDefinition E n)" by (simp add: wiringOK_def)
  then show ?case
    using assms by (simp add: wireBeanDefinitionBody_evolves)
qed

lemma holds_leaves: "holds I r \<Longrightarrow> leaves r = Some s' \<Longrightarrow> I s'"
  by (cases r) (simp_all add: holds_def post_def leaves_def)

lemma cacheInv_same_imp:
  assumes a: "map status (beans s') = map status (beans s)" and b: "beanCache s' = beanCache s"
    and inv: "cacheInv s"
  shows "cacheInv s'"
  unfolding cacheInv_def getStatus_def getBean_def
proof
  fix r assume "r \<in> cachedRefs s'"
  then have "r \<in> cachedRefs s" by (simp add: cachedRefs_def b)
  with inv have h: "r < length (beans s)" "status (beans s ! r) \<noteq> beanStatus_Default"
    "status (beans s ! r) \<noteq> beanStatus_Deleted"
    by (auto simp: cacheInv_def getStatus_def getBean_def)
  from a have len: "length (beans s') = length (beans s)" using length_map by metis
  have "status (beans s' ! r) = map status (beans s') ! r" using h(1) len by simp
  also have "\<dots> = status (beans s ! r)" using h(1) a by simp
  finally show "r < length (beans s') \<and> status (beans s' ! r) \<noteq> beanStatus_Default
      \<and> status (beans s' ! r) \<noteq> beanStatus_Deleted"
    using h len by simp
qed

lemma cacheInv_same:
  "map status (beans s') = map status (beans s) \<Longrightarrow> beanCache s' = beanCache s \<Longrightarrow> cacheInv s' = cacheInv s"
  using cacheInv_same_imp [of s' s] cacheInv_same_imp [of s s'] by auto

lemma cacheInv_newBean: "cacheInv s \<Longrightarrow> cacheInv (snd (newBean d s))"
  using cacheInv_step [OF _ step_newBean [OF step_refl]] by blast

lemma evolves_cacheInv:
  assumes "cacheInv s" and "holds (evolves s) r"
  shows "holds cacheInv r"
  using assms(2) by (rule holds_mono) (use assms(1) cacheInv_step in \<open>auto simp: evolves_def\<close>)

lemma registerBeanDefinition_cacheInv: "cacheInv s \<Longrightarrow> holds cacheInv (registerBeanDefinition d s)"
proof -
  assume inv: "cacheInv s"
  have "\<And>k. cacheInv (s\<lparr>beanMap := beanMap s @ [(k, d)]\<rparr>)"
    using cacheInv_same_imp [of "s\<lparr>beanMap := beanMap s @ [(k, d)]\<rparr>" s for k] inv by simp
  then show ?thesis
    unfolding registerBeanDefinition_def checkRegistration_def using inv
    by (simp add: andThen_def holds_Done holds_Panic Let_def)
qed

lemma RegisterNameBean_cacheInv: "cacheInv s \<Longrightarrow> holds cacheInv (RegisterNameBean d s)"
proof -
  assume inv: "cacheInv s"
  obtain b s1 where n: "newBean d s = (b, s1)" by (cases "newBean d s") auto
  have "cacheInv s1" using cacheInv_newBean [OF inv, of d] by (simp add: n)
  then have "holds cacheInv (registerBeanDefinition b s1)" by (rule registerBeanDefinition_cacheInv)
  then show ?thesis
    unfolding RegisterNameBean_def n by (auto intro: holds_andThen holds_Done)
qed

lemma RegisterNameBeanFn_cacheInv: "cacheInv s \<Longrightarrow> holds cacheInv (RegisterNameBeanFn d s)"
  using RegisterNameBean_cacheInv by (simp add: RegisterNameBeanFn_def RegisterNameBean_def)

lemma RegisterNameMethodBean_cacheInv: "cacheInv s \<Longrightarrow> holds cacheInv (RegisterNameMethodBean d s)"
proof -
  assume inv: "cacheInv s"
  obtain b s1 where n: "newBean d s = (b, s1)" by (cases "newBean d s") auto
  have "cacheInv s1" using cacheInv_newBean [OF inv, of d] by (simp add: n)
  then have "cacheInv (s1\<lparr>methodBeans := methodBeans s1 @ [b]\<rparr>)"
    using cacheInv_same [of "s1\<lparr>methodBeans := methodBeans s1 @ [b]\<rparr>" s1] by simp
  then show ?thesis
    unfolding RegisterNameMethodBean_def checkRegistration_def using inv
    by (auto simp: andThen_def holds_Done holds_Panic n split: springBean.splits)
qed

lemma registerMethodBean_cacheInv: "cacheInv s \<Longrightarrow> holds cacheInv (registerMethodBean E bd s)"
proof -
  assume inv: "cacheInv s"
  have u: "\<And>d :: BeanDefinition. status d = status (getBean s bd) \<Longrightarrow> cacheInv (s\<lparr>beans := (beans s)[bd := d]\<rparr>)"
  proof -
    fix d :: BeanDefinition assume "status d = status (getBean s bd)"
    then have "map status ((beans s)[bd := d]) = map status (beans s)"
      by (cases "bd < length (beans s)") (simp_all add: map_update getBean_def list_update_same_conv list_update_beyond)
    then show "cacheInv (s\<lparr>beans := (beans s)[bd := d]\<rparr>)"
      using cacheInv_same_imp [of "s\<lparr>beans := (beans s)[bd := d]\<rparr>" s] inv by simp
  qed
  show ?thesis
    unfolding registerMethodBean_def Let_def using inv
    by (auto intro!: registerBeanDefinition_cacheInv u simp: holds_Panic split: springBean.splits prod.splits)
qed

lemma resolveBean_cacheInv: "cacheInv s \<Longrightarrow> holds cacheInv (resolveBean E bd s)"
  using resolveBean_step [of s E bd] cacheInv_step holds_mono by blast

lemma wireBeanDefinition_cacheInv:
  "envOK E \<Longrightarrow> cacheInv s \<Longrightarrow> holds cacheInv (wireBeanDefinition E n bd a s)"
  using evolves_cacheInv wireBeanDefinition_evolves by blast

lemma wiringOK_wireBeanDefinition: "envOK E \<Longrightarrow> wiringOK (wireBeanDefinition E n)"
  by (simp add: wiringOK_def wireBeanDefinition_evolves)

lemma rangeBeanMap_cacheInv:
  assumes "cacheInv s" and "\<And>b s. cacheInv s \<Longrightarrow> holds cacheInv (body b s)"
  shows "holds cacheInv (rangeBeanMap E body s)"
  unfolding rangeBeanMap_def
  by (rule holds_forEach [where I = cacheInv]) (auto simp: assms holds_Done)

lemma wireAll_cacheInv:
  assumes "envOK E" and "cacheInv s"
  shows "holds cacheInv (wireAll E (wireBeanDefinition E n) s)"
proof -
  have s: "\<And>m i s. cacheInv s \<Longrightarrow> holds cacheInv (wireSorted (wireBeanDefinition E n) m i s)"
    unfolding wireSorted_def
    by (auto simp: holds_Panic wireBeanDefinition_cacheInv assms(1) split: option.splits)
  show ?thesis
    unfolding wireAll_def Let_def
    using assms
    by (auto intro!: rangeBeanMap_cacheInv wireBeanDefinition_cacheInv holds_forEach [where I = cacheInv] s)
qed

lemma recoverLog_cacheInv: "holds cacheInv r \<Longrightarrow> holds cacheInv (recoverLog r)"
proof (cases r)
  case (Done a s)
  assume "holds cacheInv r"
  with Done show ?thesis by (simp add: recoverLog_def)
next
  case (Panic e s)
  assume "holds cacheInv r"
  with Panic have "cacheInv s" by (simp add: holds_def post_def)
  then have "\<And>p. cacheInv (s\<lparr>logged := logged s @ [p]\<rparr>)"
    using cacheInv_same_imp [of "s\<lparr>logged := logged s @ [p]\<rparr>" s for p] by simp
  with Panic \<open>cacheInv s\<close> show ?thesis
    by (simp add: recoverLog_def holds_Panic split: option.splits)
next
  case OutOfFuel
  then show ?thesis by (simp add: recoverLog_def holds_OutOfFuel)
qed

lemma cacheInv_notify: "cacheInv (eventNotify ev s) = cacheInv s"
  by (rule cacheInv_same) (simp_all add: eventNotify_def)

lemma cacheInv_assembly: "cacheInv (newDefaultBeanAssembly s) = cacheInv s"
  by (rule cacheInv_same) (simp_all add: newDefaultBeanAssembly_def)

lemma AutoWireBeans_cacheInv:
  assumes "envOK E" and "cacheInv s"
  shows "holds cacheInv (AutoWireBeans E fuel s)"
proof -
  have aw: "\<And>s. cacheInv (s\<lparr>autoWired := True\<rparr>) = cacheInv s"
    by (rule cacheInv_same) simp_all
  have w: "\<And>s. cacheInv s \<Longrightarrow> holds cacheInv
      (andThen (wireAll E (wireBeanDefinition E fuel) s) (\<lambda>_ s.
                 Done () (eventNotify ContextEvent_AutoWireEnd s)))"
    by (rule holds_andThen) (auto simp: wireAll_cacheInv assms(1) holds_Done cacheInv_notify)
  show ?thesis
    unfolding AutoWireBeans_def Let_def
    using assms(2)
    by (auto intro!: holds_andThen holds_forEach [where I = cacheInv] registerMethodBean_cacheInv
        rangeBeanMap_cacheInv resolveBean_cacheInv recoverLog_cacheInv w
        simp: holds_Panic cacheInv_notify cacheInv_assembly aw)
qed

lemma GetBeanByName_cacheInv:
  assumes "envOK E" and "cacheInv s"
  shows "holds cacheInv (GetBeanByName E fuel beanId i s)"
proof -
  have g: "\<And>v b p f s. cacheInv s \<Longrightarrow>
      holds cacheInv (getBeanValue E (wireBeanDefinition E fuel) v b p f s)"
    using evolves_cacheInv getBeanValue_evolves [OF wiringOK_wireBeanDefinition [OF assms(1)]] by blast
  show ?thesis
    unfolding GetBeanByName_def checkAutoWired_def Let_def using assms(2)
    by (auto intro!: g simp: andThen_def holds_Panic cacheInv_assembly split: rvalue.splits)
qed

lemma FindBean_cacheInv: "cacheInv s \<Longrightarrow> holds cacheInv (FindBean E selector' s)"
  using evolves_cacheInv FindBean_evolves by blast

lemma CollectBeans_cacheInv:
  assumes "envOK E" and "cacheInv s"
  shows "holds cacheInv (CollectBeans E fuel i s)"
proof -
  have g: "\<And>v s. cacheInv s \<Longrightarrow> holds cacheInv (collectBeans E (wireBeanDefinition E fuel) v s)"
    using evolves_cacheInv collectBeans_evolves [OF wiringOK_wireBeanDefinition [OF assms(1)]] by blast
  show ?thesis
    unfolding CollectBeans_def checkAutoWired_def using assms(2)
    by (auto intro!: g simp: andThen_def holds_Panic cacheInv_assembly split: rvalue.splits)
qed

lemma WireBean_cacheInv:
  assumes "envOK E" and "cacheInv s"
  shows "holds cacheInv (WireBean E fuel bean' s)"
proof -
  have g: "\<And>v c s. cacheInv s \<Longrightarrow> holds cacheInv (wireValue E (wireBeanDefinition E fuel) v c s)"
    using evolves_cacheInv wireValue_evolves [OF wiringOK_wireBeanDefinition [OF assms(1)]] by blast
  show ?thesis
    unfolding WireBean_def checkAutoWired_def using assms(2)
    by (auto intro!: g simp: andThen_def holds_Panic cacheInv_assembly)
qed

lemma run_cacheInv:
  assumes e: "envOK E" and inv: "cacheInv s" and r: "run E c s = Some s'"
  shows "cacheInv s'"
proof (cases c)
  case (CallRegisterNameBean d)
  with r show ?thesis using holds_leaves [OF RegisterNameBean_cacheInv [OF inv]] by simp
next
  case (CallRegisterNameBeanFn d)
  with r show ?thesis using holds_leaves [OF RegisterNameBeanFn_cacheInv [OF inv]] by simp
next
  case (CallRegisterNameMethodBean d)
  with r show ?thesis using holds_leaves [OF RegisterNameMethodBean_cacheInv [OF inv]] by simp
next
  case (CallSetAllAccess b)
  with r inv show ?thesis using cacheInv_same_imp [of "s\<lparr>allAccess := b\<rparr>" s] by auto
next
  case (CallSetSort b)
  with r inv show ?thesis using cacheInv_same_imp [of "s\<lparr>Sort := b\<rparr>" s] by auto
next
  case (CallSetEventNotify b)
  with r inv show ?thesis using cacheInv_same_imp [of "s\<lparr>hasEventNotify := b\<rparr>" s] by auto
next
  case (CallAutoWireBeans n)
  with r show ?thesis using holds_leaves [OF AutoWireBeans_cacheInv [OF e inv]] by simp
next
  case (CallGetBean n i)
  with r show ?thesis using holds_leaves [OF GetBeanByName_cacheInv [OF e inv]] by (simp add: GetBean_def)
next
  case (CallGetBeanByName n b i)
  with r show ?thesis using holds_leaves [OF GetBeanByName_cacheInv [OF e inv]] by simp
next
  case (CallFindBean x)
  with r show ?thesis using holds_leaves [OF FindBean_cacheInv [OF inv]] by simp
next
  case (CallCollectBeans n i)
  with r show ?thesis using holds_leaves [OF CollectBeans_cacheInv [OF e inv]] by simp
next
  case (CallWireBean n b)
  with r show ?thesis using holds_leaves [OF WireBean_cacheInv [OF e inv]] by simp
qed

lemma cacheInv_new: "cacheInv NewDefaultSpringContext"
  by (simp add: cacheInv_def cachedRefs_def NewDefaultSpringContext_def)

lemma reachable_cacheInv:
  assumes e: "envOK E"
  shows "reachable E s \<Longrightarrow> cacheInv s"
proof (induction rule: reachable.induct)
  case new
  show ?case by (rule cacheInv_new)
next
  case (call s c s')
  then show ?case using run_cacheInv [OF e] by blast
qed

lemma sampleEnv_envOK: "envOK sampleEnv"
  by (simp add: envOK_def sampleEnv_def holds_Done evolves_refl)

lemma registeredContext_reachable: "reachable sampleEnv registeredContext"
proof -
  let ?s1 = "NewDefaultSpringContext\<lparr>beans := [unmetBean], beanMap := [(keyA ''a1'', 0)]\<rparr>"
  have 1: "run sampleEnv (CallRegisterNameBean unmetBean) NewDefaultSpringContext = Some ?s1"
    by (simp add: leaves_def RegisterNameBean_def newBean_def registerBeanDefinition_def
        checkRegistration_def andThen_def NewDefaultSpringContext_def keyOf_def getBean_def
        unmetBean_def sampleBean_def keyA_def)
  have 2: "run sampleEnv (CallRegisterNameBean metBean) ?s1 = Some registeredContext"
    by (simp add: leaves_def RegisterNameBean_def newBean_def registerBeanDefinition_def
        checkRegistration_def andThen_def NewDefaultSpringContext_def keyOf_def getBean_def
        unmetBean_def metBean_def sampleBean_def keyA_def registeredContext_def)
  show ?thesis
    using reachable.call [OF reachable.call [OF reachable.new 1] 2] .
qed

lemma resolvedContext_run:
  "run sampleEnv (CallAutoWireBeans (Suc (Suc 0))) registeredContext = Some resolvedContext"
  by (simp add: leaves_def AutoWireBeans_def rangeBeanMap_def eventNotify_def newDefaultBeanAssembly_def
      recoverLog_def wireAll_def resolveBean.simps deleteBeanDefinition_def setStatus_def
      findCacheItem_def store_def newBeanCacheItem_def storeExport_def
      wireBeanDefinitionBody_def wireObjectBean_def pushBack_def popBack_def callInit_def
      andThen_def NewDefaultSpringContext_def keyOf_def getBean_def getStatus_def
      unmetBean_def metBean_def sampleBean_def keyA_def registeredContext_def resolvedContext_def
      sampleEnv_def Let_def)

section \<open>The order of the wiring loops\<close>

lemma mapStore_fresh: "k \<notin> fst ` set m \<Longrightarrow> mapStore k v m = m @ [(k, v)]"
  by (induction m) auto

lemma foldl_mapStore_distinct:
  "distinct (map f L) \<Longrightarrow> fst ` set m0 \<inter> f ` set L = {} \<Longrightarrow>
   foldl (\<lambda>m kb. mapStore (f kb) (g kb) m) m0 L = m0 @ map (\<lambda>kb. (f kb, g kb)) L"
proof (induction L arbitrary: m0)
  case Nil
  then show ?case by simp
next
  case (Cons x L)
  have fresh: "f x \<notin> fst ` set m0" using Cons.prems(2) by auto
  have d: "distinct (map f L)" "f x \<notin> f ` set L" using Cons.prems(1) by auto
  have "fst ` set (m0 @ [(f x, g x)]) \<inter> f ` set L = {}"
    using Cons.prems(2) d(2) by auto
  from Cons.IH [OF d(1) this] show ?case
    by (simp add: mapStore_fresh [OF fresh])
qed

lemma map_of_pairs_distinct:
  "distinct (map f L) \<Longrightarrow> x \<in> set L \<Longrightarrow> map_of (map (\<lambda>kb. (f kb, g kb)) L) (f x) = Some (g x)"
  by (induction L) (auto simp: rev_image_eqI)

lemma sort_map_sort_key: "sort (map f xs) = map f (sort_key f xs)"
  by (rule properties_for_sort) simp_all

lemma forEach_stable:
  assumes e: "envOK E" and inv0: "cacheInv s0" and res0: "resolvedAll s0"
    and body: "\<And>x s. x \<in> set xs \<Longrightarrow> beanMap s = beanMap s0 \<Longrightarrow>
                 f x s = wireBeanDefinition E n (plainBeanDefinition (g x)) False s"
  shows "evolves s0 s \<Longrightarrow>
         forEach xs f s = forEach (map g xs) (\<lambda>r. wireBeanDefinition E n (plainBeanDefinition r) False) s"
  using body
proof (induction xs arbitrary: s)
  case Nil
  then show ?case by simp
next
  case (Cons x xs)
  have bm: "beanMap s = beanMap s0"
    using Cons.prems(1) inv0 res0 by (simp add: evolves_def quiet_def)
  have fx: "f x s = wireBeanDefinition E n (plainBeanDefinition (g x)) False s"
    using Cons.prems(2) [of x s] bm by simp
  have h: "holds (evolves s) (wireBeanDefinition E n (plainBeanDefinition (g x)) False s)"
    using e by (rule wireBeanDefinition_evolves)
  have ih: "\<And>s'. evolves s0 s' \<Longrightarrow>
      forEach xs f s' = forEach (map g xs) (\<lambda>r. wireBeanDefinition E n (plainBeanDefinition r) False) s'"
    using Cons.IH Cons.prems(2) by simp
  show ?case
  proof (cases "wireBeanDefinition E n (plainBeanDefinition (g x)) False s")
    case (Done u s')
    with h have "evolves s s'" by (simp add: holds_def post_def)
    with Cons.prems(1) have "evolves s0 s'" using evolves_trans by blast
    from ih [OF this] Done fx show ?thesis by (simp add: andThen_def)
  next
    case (Panic err s')
    with fx show ?thesis by (simp add: andThen_def)
  next
    case OutOfFuel
    with fx show ?thesis by (simp add: andThen_def)
  qed
qed

lemma revEnv_envOK: "envOK revEnv"
  by (simp add: envOK_def revEnv_def sampleEnv_def holds_Done evolves_refl)

section \<open>What collectBeans gathers\<close>















section \<open>The claims\<close>

subsection \<open>C1: a bean that is entered again while it is being wired\<close>

text \<open>
  C1, as amended. When \<^verbatim>\<open>wireBeanDefinition\<close> enters a bean whose status is Wiring,
  the call returns if the provider of the bean is an object bean and panics with "found
  circle autowire" for every other provider. The panic value carries no path. The bean
  entered again is on top of the wiring stack at the panic, and the deferred function of
  \<^verbatim>\<open>AutoWireBeans\<close> writes the path of that stack to the log before it raises the panic again.
\<close>

theorem wireBeanDefinition_cycle:
  assumes "getStatus s (refOf bd) = beanStatus_Wiring"
  shows "wireBeanDefinition E (Suc n) bd onlyAutoWire s =
           (if bean (getBean s (refOf bd)) = objectBean then Done () (pushBack bd s)
            else Panic FoundCircleAutowire (pushBack bd s))
       \<and> stack (pushBack bd s) = stack s @ [bd]
       \<and> recoverLog (Panic FoundCircleAutowire (pushBack bd s)) =
           Panic FoundCircleAutowire
             ((pushBack bd s)\<lparr>logged := logged s @ [butlast (concat (map (pathLine s) (stack s @ [bd])))]\<rparr>)"
  using assms
  by (simp add: wireBeanDefinitionBody_def getStatus_pushBack getBean_pushBack Let_def
      recoverLog_def path_def pathLine_pushBack) (simp add: pushBack_def)

theorem wireBeanDefinition_cycle_witness:
  "getStatus cycleContext 0 = beanStatus_Wiring \<and> getStatus cycleContext 1 = beanStatus_Wiring
   \<and> wireBeanDefinition sampleEnv 1 (plainBeanDefinition 0) False cycleContext
       = Panic FoundCircleAutowire (pushBack (plainBeanDefinition 0) cycleContext)
   \<and> wireBeanDefinition sampleEnv 1 (plainBeanDefinition 1) False cycleContext
       = Done () (pushBack (plainBeanDefinition 1) cycleContext)"
  using wireBeanDefinition_cycle [of cycleContext "plainBeanDefinition 0" sampleEnv 0 False]
    wireBeanDefinition_cycle [of cycleContext "plainBeanDefinition 1" sampleEnv 0 False]
  by (simp add: sample_defs getStatus_def getBean_def)

text \<open>
  C1 as stated fails: the error does not report the wiring path. The same constructor
  bean entered again under two different wiring stacks gives the same panic value, while
  the paths of the two stacks differ; nothing is logged by \<^verbatim>\<open>wireBeanDefinition\<close> itself.
\<close>

theorem circle_error_without_path_counterexample:
  "wireBeanDefinition sampleEnv 1 (plainBeanDefinition 0) False cycleContext
     = Panic FoundCircleAutowire (pushBack (plainBeanDefinition 0) cycleContext)
   \<and> wireBeanDefinition sampleEnv 1 (plainBeanDefinition 0) False (cycleContext\<lparr>stack := []\<rparr>)
     = Panic FoundCircleAutowire (pushBack (plainBeanDefinition 0) (cycleContext\<lparr>stack := []\<rparr>))
   \<and> path (pushBack (plainBeanDefinition 0) cycleContext)
       \<noteq> path (pushBack (plainBeanDefinition 0) (cycleContext\<lparr>stack := []\<rparr>))
   \<and> logged (pushBack (plainBeanDefinition 0) cycleContext) = []"
  by (simp add: sample_defs wireBeanDefinitionBody_def getStatus_def getBean_def pushBack_def
      path_def pathLine_def)

subsection \<open>C2: the choice among several candidates\<close>

text \<open>
  C2, as amended. For a target of a reference type with a candidate set that is not
  empty: more than one primary candidate is a panic that lists the description of every
  primary candidate; no primary candidate and more than one candidate is a panic that
  lists the description of every candidate; otherwise the bean chosen is the one primary
  candidate, wherever it stands among the candidates, or else the only candidate. The
  chosen bean is wired, and a panic of that wiring is passed on. When the wiring returns,
  the value that the bean then has is set into the target and the lookup returns true,
  provided the target can be set: it is exported, or the context allows all access.
  Otherwise the assignment panics inside \<^verbatim>\<open>reflect\<close> and nothing is assigned.
\<close>

theorem getBeanValue_disambiguation:
  assumes "IsRefType (Kind (slotType v))"
    and "cs = filter (isCandidate E s (slotType v) beanId parentValue) (getCacheItem s (slotType v))"
    and "ps = filter (\<lambda>b. primary (getBean s b)) cs"
    and "cs \<noteq> []"
    and "chosen = (if length ps = 1 then hd ps else hd cs)"
  shows "getBeanValue E wire v beanId parentValue field s =
     (if length ps > 1
      then Panic (FoundPrimaryBeans (length ps) beanId field (slotType v)
                    (map (\<lambda>b. Description s (plainBeanDefinition b)) ps)) s
      else if ps = [] \<and> length cs > 1
      then Panic (FoundBeans (length cs) beanId field (slotType v)
                    (map (\<lambda>b. Description s (plainBeanDefinition b)) cs)) s
      else
        (case wire (plainBeanDefinition chosen) False s of
           Done u s' \<Rightarrow>
             if slotExported v \<or> allAccess s'
             then Done True (s'\<lparr>written := written s' @ [(v, rValue (getBean s' chosen))]\<rparr>)
             else Panic (RuntimePanic ''reflect: reflect.Value.Set using value obtained using unexported field'') s'
         | Panic e s' \<Rightarrow> Panic e s'
         | OutOfFuel \<Rightarrow> OutOfFuel))"
proof -
  have "length ps = 1 \<or> ps = [] \<or> length ps > 1"
    by (cases ps) (auto simp: Suc_lessI)
  then show ?thesis
    using assms
    by (auto simp add: getBeanValue_unfold Let_def andThen_def setSlot_def CanSet_def
        split: result.splits)
qed

theorem getBeanValue_disambiguation_witness:
  "IsRefType (Kind (slotType slotA))
   \<and> filter (isCandidate sampleEnv (lookupContext False True True) (slotType slotA) [] VZero)
        (getCacheItem (lookupContext False True True) (slotType slotA)) = [0, 1, 2]
   \<and> filter (\<lambda>b. primary (getBean (lookupContext False True True) b)) [0, 1, 2] = [1, 2]
   \<and> getBeanValue sampleEnv (wireBeanDefinition sampleEnv 1) slotA [] VZero ''f'' (lookupContext False True True)
       = Panic (FoundPrimaryBeans 2 [] ''f'' (TPtr (TStruct ''A'')) [''bean a2'', ''bean a3''])
           (lookupContext False True True)
   \<and> filter (\<lambda>b. primary (getBean (lookupContext False False False) b)) [0, 1, 2] = []
   \<and> getBeanValue sampleEnv (wireBeanDefinition sampleEnv 1) slotA [] VZero ''f'' (lookupContext False False False)
       = Panic (FoundBeans 3 [] ''f'' (TPtr (TStruct ''A'')) [''bean a1'', ''bean a2'', ''bean a3''])
           (lookupContext False False False)
   \<and> filter (\<lambda>b. primary (getBean (lookupContext False False True) b)) [0, 1, 2] = [2]
   \<and> getBeanValue sampleEnv (wireBeanDefinition sampleEnv 1) slotA [] VZero ''f'' (lookupContext False False True)
       = Done True ((lookupContext False False True)
           \<lparr>beans := [sampleBean objectBean ''a1'' 1 beanStatus_Resolved False,
                      sampleBean objectBean ''a2'' 2 beanStatus_Resolved False,
                      sampleBean objectBean ''a3'' 3 beanStatus_Wired True],
            watched := [(plainBeanDefinition 2, WiringEvent_Push), (plainBeanDefinition 2, WiringEvent_Pop)],
            written := [(slotA, VPtr (TPtr (TStruct ''A'')) [3])]\<rparr>)
   \<and> filter (isCandidate sampleEnv (lookupContext False True True) (slotType slotA) ''a1'' VZero)
        (getCacheItem (lookupContext False True True) (slotType slotA)) = [0]
   \<and> getBeanValue sampleEnv (wireBeanDefinition sampleEnv 1) slotA ''a1'' VZero ''f'' (lookupContext False True True)
       = Done True ((lookupContext False True True)
           \<lparr>beans := [sampleBean objectBean ''a1'' 1 beanStatus_Wired False,
                      sampleBean objectBean ''a2'' 2 beanStatus_Resolved True,
                      sampleBean objectBean ''a3'' 3 beanStatus_Resolved True],
            watched := [(plainBeanDefinition 0, WiringEvent_Push), (plainBeanDefinition 0, WiringEvent_Pop)],
            written := [(slotA, VPtr (TPtr (TStruct ''A'')) [1])]\<rparr>)"
  using getBeanValue_disambiguation [of slotA "[0, 1, 2]" sampleEnv "lookupContext False True True" "[]" VZero "[1, 2]" 0 "wireBeanDefinition sampleEnv 1" "''f''"]
    getBeanValue_disambiguation [of slotA "[0, 1, 2]" sampleEnv "lookupContext False False False" "[]" VZero "[]" 0 "wireBeanDefinition sampleEnv 1" "''f''"]
    getBeanValue_disambiguation [of slotA "[0, 1, 2]" sampleEnv "lookupContext False False True" "[]" VZero "[2]" 2 "wireBeanDefinition sampleEnv 1" "''f''"]
    getBeanValue_disambiguation [of slotA "[0]" sampleEnv "lookupContext False True True" "''a1''" VZero "[]" 0 "wireBeanDefinition sampleEnv 1" "''f''"]
  by (simp add: lookup_defs wireBeanDefinitionBody_def wireObjectBean_def getStatus_def pushBack_def
      popBack_def setStatus_def callInit_def andThen_def Let_def)

text \<open>
  C2 as stated fails where it says that the value of the selected candidate is assigned:
  with an unexported field as target and a context that does not allow all access, the
  one primary candidate is selected and wired, and then the assignment panics; nothing is
  written.
\<close>

theorem unsettable_target_counterexample:
  "IsRefType (Kind (slotType privateSlot))
   \<and> filter (isCandidate sampleEnv (lookupContext False False True) (slotType privateSlot) [] VZero)
        (getCacheItem (lookupContext False False True) (slotType privateSlot)) = [0, 1, 2]
   \<and> filter (\<lambda>b. primary (getBean (lookupContext False False True) b)) [0, 1, 2] = [2]
   \<and> getBeanValue sampleEnv (wireBeanDefinition sampleEnv 1) privateSlot [] VZero ''f'' (lookupContext False False True)
       = Panic (RuntimePanic ''reflect: reflect.Value.Set using value obtained using unexported field'')
           ((lookupContext False False True)
             \<lparr>beans := [sampleBean objectBean ''a1'' 1 beanStatus_Resolved False,
                        sampleBean objectBean ''a2'' 2 beanStatus_Resolved False,
                        sampleBean objectBean ''a3'' 3 beanStatus_Wired True],
              watched := [(plainBeanDefinition 2, WiringEvent_Push), (plainBeanDefinition 2, WiringEvent_Pop)],
              written := []\<rparr>)"
  by (simp add: lookup_defs getBeanValue_def candidates_def primaries_def descriptions_def setSlot_def CanSet_def
      wireBeanDefinitionBody_def wireObjectBean_def getStatus_def pushBack_def
      popBack_def setStatus_def callInit_def andThen_def Let_def)

subsection \<open>C4: a lookup without candidates\<close>

text \<open>
  C4. For a target of a reference type with an empty candidate set, \<^verbatim>\<open>getBeanValue\<close>
  returns false and leaves the state alone when the selector is marked nullable, and
  panics with "can't find bean" when it is not.
\<close>

theorem getBeanValue_no_candidate:
  assumes "IsRefType (Kind (slotType v))"
    and "filter (isCandidate E s (slotType v) beanId parentValue) (getCacheItem s (slotType v)) = []"
  shows "getBeanValue E wire v beanId parentValue field s =
     (if snd (snd (ParseBeanId E beanId)) then Done False s
      else Panic (CantFindBean beanId field (slotType v)) s)"
  using assms by (simp add: getBeanValue_unfold nullable_ParseBeanId)

theorem getBeanValue_no_candidate_witness:
  "IsRefType (Kind (slotType slotA))
   \<and> filter (isCandidate sampleEnv wiredContext (slotType slotA) ''b?'' VZero) (getCacheItem wiredContext (slotType slotA)) = []
   \<and> filter (isCandidate sampleEnv wiredContext (slotType slotA) ''b'' VZero) (getCacheItem wiredContext (slotType slotA)) = []
   \<and> getBeanValue sampleEnv (wireBeanDefinition sampleEnv 1) slotA ''b?'' VZero ''f'' wiredContext = Done False wiredContext
   \<and> getBeanValue sampleEnv (wireBeanDefinition sampleEnv 1) slotA ''b'' VZero ''f'' wiredContext
       = Panic (CantFindBean ''b'' ''f'' (TPtr (TStruct ''A''))) wiredContext"
  using getBeanValue_no_candidate [of slotA sampleEnv wiredContext "''b?''" VZero "wireBeanDefinition sampleEnv 1" "''f''"]
    getBeanValue_no_candidate [of slotA sampleEnv wiredContext "''b''" VZero "wireBeanDefinition sampleEnv 1" "''f''"]
  by (simp add: sample_defs IsRefType_def isCandidate_def getCacheItem_def ParseBeanId_def Match_def getBean_def)

subsection \<open>C5: the two ways to get a cache item\<close>

text \<open>
  C5, as amended. For a type that the cache does not have, \<^verbatim>\<open>findCacheItem\<close> of the
  context returns an empty item and puts it into the map, leaving the other entries as
  they are, so that a later \<^verbatim>\<open>store\<close> appends to it. \<^verbatim>\<open>getCacheItem\<close> of the bean
  assembly returns an empty item as well, but the map is not changed: a \<^verbatim>\<open>store\<close>
  that follows has no entry to append to.
\<close>

theorem findCacheItem_stores_getCacheItem_does_not:
  assumes "map_of (beanCache s) t = None"
  shows "getCacheItem s t = []
       \<and> fst (findCacheItem t s) = []
       \<and> map_of (beanCache (snd (findCacheItem t s))) t = Some []
       \<and> (\<forall>t'. t' \<noteq> t \<longrightarrow> map_of (beanCache (snd (findCacheItem t s))) t' = map_of (beanCache s) t')
       \<and> map_of (beanCache (store t r (snd (findCacheItem t s)))) t = Some [r]
       \<and> map_of (beanCache (store t r s)) t = None"
  using assms
  by (auto simp add: getCacheItem_def findCacheItem_def store_def newBeanCacheItem_def
      map_of_store map_add_def split: option.splits)

theorem findCacheItem_stores_witness:
  "map_of (beanCache NewDefaultSpringContext) (TPtr (TStruct ''A'')) = None
   \<and> getCacheItem NewDefaultSpringContext (TPtr (TStruct ''A'')) = []
   \<and> beanCache (snd (findCacheItem (TPtr (TStruct ''A'')) NewDefaultSpringContext)) = [(TPtr (TStruct ''A''), [])]
   \<and> beanCache (store (TPtr (TStruct ''A'')) 0 (snd (findCacheItem (TPtr (TStruct ''A'')) NewDefaultSpringContext))) = [(TPtr (TStruct ''A''), [0])]"
  using findCacheItem_stores_getCacheItem_does_not [of NewDefaultSpringContext "TPtr (TStruct ''A'')" 0]
  by (simp add: NewDefaultSpringContext_def findCacheItem_def store_def newBeanCacheItem_def getCacheItem_def)

text \<open>
  C5 as stated fails for \<^verbatim>\<open>getCacheItem\<close>, the get operation of the lookups: after a
  lookup of a type that is not cached, the map still has no entry for the type.
\<close>

theorem getCacheItem_stores_nothing_counterexample:
  "map_of (beanCache wiredContext) (TPtr (TStruct ''B'')) = None
   \<and> getCacheItem wiredContext (TPtr (TStruct ''B'')) = []
   \<and> GetBeanByName sampleEnv 1 [] (VPtr (TPtr (TPtr (TStruct ''B''))) [9]) wiredContext = Done False wiredContext
   \<and> map_of (beanCache wiredContext) (TPtr (TStruct ''B'')) \<noteq> Some []"
  by (simp add: sample_defs GetBeanByName_def checkAutoWired_def andThen_def ensureNullable_def
      getBeanValue_def ParseBeanId_def IsRefType_def candidates_def getCacheItem_def
      newBeanCacheItem_def newDefaultBeanAssembly_def)

subsection \<open>C9: what the tolerated cycle leaves behind\<close>

text \<open>
  C9. When \<^verbatim>\<open>wireBeanDefinition\<close> enters an object bean whose status is Wiring, it
  returns right after the push: the frame is still on the wiring stack, the watchers have
  seen a push and no pop, the status of the bean is still Wiring, and no bean definition,
  no target and no init function has been touched.
\<close>

theorem reentrant_object_bean_returns_after_push:
  assumes "getStatus s (refOf bd) = beanStatus_Wiring"
    and "bean (getBean s (refOf bd)) = objectBean"
  shows "\<exists>s'. wireBeanDefinition E (Suc n) bd onlyAutoWire s = Done () s'
       \<and> stack s' = stack s @ [bd]
       \<and> watched s' = watched s @ [(bd, WiringEvent_Push)]
       \<and> getStatus s' (refOf bd) = beanStatus_Wiring
       \<and> beans s' = beans s
       \<and> written s' = written s
       \<and> inited s' = inited s"
  using assms
  by (simp add: wireBeanDefinitionBody_def getStatus_pushBack getBean_pushBack Let_def)
     (simp add: pushBack_def)

theorem reentrant_object_bean_witness:
  "getStatus cycleContext 1 = beanStatus_Wiring \<and> bean (getBean cycleContext 1) = objectBean
   \<and> wireBeanDefinition sampleEnv 1 (plainBeanDefinition 1) False cycleContext
       = Done () (cycleContext\<lparr>stack := [plainBeanDefinition 1, plainBeanDefinition 0, plainBeanDefinition 1],
                               watched := [(plainBeanDefinition 1, WiringEvent_Push)]\<rparr>)"
  using reentrant_object_bean_returns_after_push [of cycleContext "plainBeanDefinition 1" sampleEnv 0 False]
  by (simp add: sample_defs getStatus_def getBean_def wireBeanDefinitionBody_def pushBack_def)

subsection \<open>C10: lookups by GetBean and GetBeanByName\<close>



subsection \<open>C3: what a factory function returns\<close>

text \<open>
  C3 holds for an error and for a nil interface, and the code misses the nil pointer: a
  constructor that returns a nil pointer passes the test for nil, because the pointer
  packed into an interface is not nil. Its bean is wrapped and wired, and ends as wired
  with the nil pointer as its value; when the struct type has a field, the wiring of the
  wrapped bean panics inside \<^verbatim>\<open>reflect\<close>. Neither run ends with the panic "return nil".
\<close>

theorem nil_pointer_of_constructor_is_wired:
  "(case wireBeanDefinition nilEnv (Suc (Suc 0)) (plainBeanDefinition 0) False constructorContext of
      Done u s' \<Rightarrow> getStatus s' 0 = beanStatus_Wired \<and> rValue (getBean s' 0) = VNil (TPtr (TStruct ''A''))
    | Panic e s' \<Rightarrow> False
    | OutOfFuel \<Rightarrow> False)
   \<and> (case wireBeanDefinition fieldEnv (Suc (Suc 0)) (plainBeanDefinition 0) False constructorContext of
      Done u s' \<Rightarrow> False
    | Panic e s' \<Rightarrow> e = RuntimePanic ''reflect: call of reflect.Value.Field on zero Value''
    | OutOfFuel \<Rightarrow> False)"
  by (simp add: nilEnv_def fieldEnv_def constructorContext_def sample_defs wireBeanDefinitionBody_def
      getStatus_def getBean_def pushBack_def setStatus_def andThen_def wireFunctionBean_def
      returnedValue_def IsRefType_def newBean_def wireObjectBean_def wireField_def popBack_def
      callInit_def Let_def)

subsection \<open>C8: no deleted bean in the cache\<close>

text \<open>
  C8. In every state that a context can reach by calls of its interface, no bean in the
  cache has the status Deleted, provided the argument lists of factory functions change
  the context only through the bean assembly. \<^verbatim>\<open>resolveBean\<close> is the only function that
  deletes, it deletes a bean only while the bean is not in the cache, and nothing deletes a
  bean that is cached.
\<close>

theorem cache_never_holds_deleted_bean:
  assumes "envOK E" and "reachable E s"
  shows "cacheHasNoDeleted s"
  using reachable_cacheInv [OF assms]
  by (auto simp: cacheHasNoDeleted_def cacheInv_def cachedRefs_def list_all_iff)

theorem cache_never_holds_deleted_bean_witness:
  "envOK sampleEnv \<and> reachable sampleEnv resolvedContext
   \<and> getStatus resolvedContext 0 = beanStatus_Deleted
   \<and> beanCache resolvedContext = [(TPtr (TStruct ''A''), [1])]
   \<and> cacheHasNoDeleted resolvedContext"
  using cache_never_holds_deleted_bean [OF sampleEnv_envOK
      reachable.call [OF registeredContext_reachable resolvedContext_run]]
    sampleEnv_envOK reachable.call [OF registeredContext_reachable resolvedContext_run]
  by (simp add: resolvedContext_def getStatus_def getBean_def NewDefaultSpringContext_def)

subsection \<open>C6: the order in which AutoWireBeans wires\<close>

text \<open>
  C6, as amended. The wiring loops of \<^verbatim>\<open>AutoWireBeans\<close> run in a state in which every
  bean of the bean map is resolved, as the resolve loop leaves it. There they call
  \<^verbatim>\<open>wireBeanDefinition\<close> once for every bean of the bean map, until a call panics: in the
  order in which the \<^verbatim>\<open>range\<close> loop of the runtime visits the map when \<^verbatim>\<open>Sort\<close> is
  unset, which need not be the order of registration, and in ascending order of the bean
  ids when \<^verbatim>\<open>Sort\<close> is set and the bean ids of the beans in the map differ from each
  other. The \<^verbatim>\<open>range\<close> loop is assumed to visit every entry of the map once, and the
  argument lists of factory functions to act through the bean assembly only.
\<close>

theorem wireAll_order:
  assumes e: "envOK E" and inv: "cacheInv s" and res: "resolvedAll s"
    and perm: "mset (rangeMap E (beanMap s)) = mset (beanMap s)"
    and keys: "distinct (map fst (beanMap s))"
    and ids: "Sort s \<Longrightarrow> distinct (map (\<lambda>kb. BeanId (getBean s (snd kb))) (beanMap s))"
  shows "wireAll E (wireBeanDefinition E n) s =
           forEach (wireOrder E s) (\<lambda>r. wireBeanDefinition E n (plainBeanDefinition r) False) s
       \<and> mset (wireOrder E s) = mset (map snd (beanMap s))
       \<and> (if Sort s then sorted (map (\<lambda>r. BeanId (getBean s r)) (wireOrder E s))
           else wireOrder E s = map snd (rangeMap E (beanMap s)))"
proof -
  let ?L = "rangeMap E (beanMap s)"
  let ?f = "\<lambda>kb. BeanId (getBean s (snd kb))"
  let ?wire = "\<lambda>r. wireBeanDefinition E n (plainBeanDefinition r) False"
  have setL: "set ?L = set (beanMap s)" using perm by (rule mset_eq_setD)
  have m: "mset (wireOrder E s) = mset (map snd (beanMap s))"
    by (simp add: wireOrder_def perm)
  show ?thesis
  proof (cases "Sort s")
    case False
    have "forEach ?L (\<lambda>kb s'. if kb \<in> set (beanMap s') then ?wire (snd kb) s' else Done () s') s
            = forEach (map snd ?L) ?wire s"
      using e inv res
    proof (rule forEach_stable)
      fix x and s' :: state assume "x \<in> set ?L" "beanMap s' = beanMap s"
      then show "(if x \<in> set (beanMap s') then ?wire (snd x) s' else Done () s') = ?wire (snd x) s'"
        using setL by simp
    next
      show "evolves s s" by (rule evolves_refl)
    qed
    with False m show ?thesis by (simp add: wireAll_def rangeBeanMap_def wireOrder_def)
  next
    case True
    have dL: "distinct (map ?f ?L)"
    proof -
      have "mset (map ?f ?L) = mset (map ?f (beanMap s))" using perm by simp
      then show ?thesis using ids [OF True] mset_eq_imp_distinct_iff by blast
    qed
    let ?bkm = "map (\<lambda>kb. (?f kb, fst kb)) ?L"
    have bkm: "beanKeyMapOf E s = ?bkm"
      unfolding beanKeyMapOf_def using foldl_mapStore_distinct [OF dL, of "[]" fst] by simp
    let ?ids = "sort (map fst ?bkm)"
    let ?g = "\<lambda>i. the (map_of (beanMap s) (the (map_of ?bkm i)))"
    have look: "\<And>kb. kb \<in> set ?L \<Longrightarrow> map_of ?bkm (?f kb) = Some (fst kb) \<and> map_of (beanMap s) (fst kb) = Some (snd kb)"
    proof -
      fix kb assume kb: "kb \<in> set ?L"
      have "map_of ?bkm (?f kb) = Some (fst kb)" using dL kb by (rule map_of_pairs_distinct)
      moreover have "map_of (beanMap s) (fst kb) = Some (snd kb)"
        using keys kb setL by (cases kb) simp
      ultimately show "map_of ?bkm (?f kb) = Some (fst kb) \<and> map_of (beanMap s) (fst kb) = Some (snd kb)" ..
    qed
    have loop: "forEach ?ids (wireSorted (wireBeanDefinition E n) ?bkm) s = forEach (map ?g ?ids) ?wire s"
      using e inv res
    proof (rule forEach_stable)
      fix x and s' :: state assume x: "x \<in> set ?ids" and b: "beanMap s' = beanMap s"
      then obtain kb where kb: "kb \<in> set ?L" "x = ?f kb" by auto
      show "wireSorted (wireBeanDefinition E n) ?bkm x s' = ?wire (?g x) s'"
        using look [OF kb(1)] kb(2) b by (simp add: wireSorted_def)
    next
      show "evolves s s" by (rule evolves_refl)
    qed
    have idsEq: "?ids = map ?f (sort_key ?f ?L)"
      by (simp add: comp_def sort_map_sort_key)
    have ord: "map ?g ?ids = map snd (sort_key ?f ?L)"
      unfolding idsEq using look by (simp add: comp_def)
    have srt: "sorted (map (\<lambda>r. BeanId (getBean s r)) (map snd (sort_key ?f ?L)))"
      using sorted_sort_key [of ?f ?L] by (simp add: comp_def)
    show ?thesis
      using True m loop ord srt
      by (simp add: wireAll_def bkm wireOrder_def Let_def)
  qed
qed

theorem wireAll_order_witness:
  "envOK revEnv
   \<and> cacheInv (lookupContext False False False) \<and> resolvedAll (lookupContext False False False)
   \<and> mset (rangeMap revEnv (beanMap (lookupContext False False False))) = mset (beanMap (lookupContext False False False))
   \<and> distinct (map fst (beanMap (lookupContext False False False)))
   \<and> distinct (map (\<lambda>kb. BeanId (getBean (lookupContext False False False) (snd kb)))
         (beanMap (lookupContext False False False)))
   \<and> wireOrder revEnv (lookupContext False False False) = [2, 1, 0]
   \<and> wireOrder revEnv ((lookupContext False False False)\<lparr>Sort := True\<rparr>) = [0, 1, 2]
   \<and> wireAll revEnv (wireBeanDefinition revEnv 1) (lookupContext False False False)
       = forEach [2, 1, 0] (\<lambda>r. wireBeanDefinition revEnv 1 (plainBeanDefinition r) False)
           (lookupContext False False False)
   \<and> wireAll revEnv (wireBeanDefinition revEnv 1) ((lookupContext False False False)\<lparr>Sort := True\<rparr>)
       = forEach [0, 1, 2] (\<lambda>r. wireBeanDefinition revEnv 1 (plainBeanDefinition r) False)
           ((lookupContext False False False)\<lparr>Sort := True\<rparr>)
   \<and> (case wireAll revEnv (wireBeanDefinition revEnv 1) ((lookupContext False False False)\<lparr>Sort := True\<rparr>) of
         Done u s' \<Rightarrow> map fst (watched s') = map plainBeanDefinition [0, 0, 1, 1, 2, 2]
       | Panic e s' \<Rightarrow> False
       | OutOfFuel \<Rightarrow> False)"
proof -
  let ?c = "lookupContext False False False"
  have h: "cacheInv ?c" "resolvedAll ?c" "cacheInv (?c\<lparr>Sort := True\<rparr>)" "resolvedAll (?c\<lparr>Sort := True\<rparr>)"
    by (simp_all add: cacheInv_def cachedRefs_def resolvedAll_def lookup_defs getStatus_def)
  have p: "mset (rangeMap revEnv (beanMap ?c)) = mset (beanMap ?c)"
    "distinct (map fst (beanMap ?c))"
    "distinct (map (\<lambda>kb. BeanId (getBean ?c (snd kb))) (beanMap ?c))"
    by (simp_all add: lookup_defs revEnv_def BeanId_def)
  have p': "mset (rangeMap revEnv (beanMap (?c\<lparr>Sort := True\<rparr>))) = mset (beanMap (?c\<lparr>Sort := True\<rparr>))"
    "distinct (map fst (beanMap (?c\<lparr>Sort := True\<rparr>)))"
    "distinct (map (\<lambda>kb. BeanId (getBean (?c\<lparr>Sort := True\<rparr>) (snd kb))) (beanMap (?c\<lparr>Sort := True\<rparr>)))"
    by (simp_all add: lookup_defs revEnv_def BeanId_def)
  have o: "wireOrder revEnv ?c = [2, 1, 0]" "wireOrder revEnv (?c\<lparr>Sort := True\<rparr>) = [0, 1, 2]"
    by (simp_all add: wireOrder_def lookup_defs revEnv_def BeanId_def)
  have r: "(case forEach [0, 1, 2] (\<lambda>r. wireBeanDefinition revEnv 1 (plainBeanDefinition r) False) (?c\<lparr>Sort := True\<rparr>) of
         Done u s' \<Rightarrow> map fst (watched s') = map plainBeanDefinition [0, 0, 1, 1, 2, 2]
       | Panic e s' \<Rightarrow> False
       | OutOfFuel \<Rightarrow> False)"
    by (simp add: lookup_defs revEnv_def wireBeanDefinitionBody_def wireObjectBean_def getStatus_def
        pushBack_def popBack_def setStatus_def callInit_def andThen_def Let_def)
  show ?thesis
    using wireAll_order [OF revEnv_envOK h(1) h(2) p, of 1]
      wireAll_order [OF revEnv_envOK h(3) h(4) p', of 1] revEnv_envOK h p o r
    by simp
qed

text \<open>
  C6 as stated fails where it says registration order: two beans are registered one
  after the other, \<^verbatim>\<open>Sort\<close> is unset, the \<^verbatim>\<open>range\<close> loop visits the map from its last
  entry to its first, and \<^verbatim>\<open>AutoWireBeans\<close> wires the bean registered second before the
  bean registered first.
\<close>

theorem registration_order_counterexample:
  "run revEnv (CallRegisterNameBean firstBean) NewDefaultSpringContext
     = Some (NewDefaultSpringContext\<lparr>beans := [firstBean], beanMap := [(keyA ''a1'', 0)]\<rparr>)
   \<and> run revEnv (CallRegisterNameBean secondBean)
         (NewDefaultSpringContext\<lparr>beans := [firstBean], beanMap := [(keyA ''a1'', 0)]\<rparr>)
     = Some twoRegistered
   \<and> \<not> Sort twoRegistered
   \<and> mset (rangeMap revEnv (beanMap twoRegistered)) = mset (beanMap twoRegistered)
   \<and> (case AutoWireBeans revEnv (Suc 0) twoRegistered of
         Done u s' \<Rightarrow> watched s' = [(plainBeanDefinition 1, WiringEvent_Push), (plainBeanDefinition 1, WiringEvent_Pop),
                                     (plainBeanDefinition 0, WiringEvent_Push), (plainBeanDefinition 0, WiringEvent_Pop)]
       | Panic e s' \<Rightarrow> False
       | OutOfFuel \<Rightarrow> False)"
  by (simp add: leaves_def RegisterNameBean_def newBean_def registerBeanDefinition_def
      checkRegistration_def keyOf_def twoRegistered_def firstBean_def secondBean_def keyA_def
      AutoWireBeans_def rangeBeanMap_def eventNotify_def newDefaultBeanAssembly_def
      recoverLog_def wireAll_def resolveBean.simps deleteBeanDefinition_def setStatus_def
      findCacheItem_def store_def newBeanCacheItem_def storeExport_def
      wireBeanDefinitionBody_def wireObjectBean_def pushBack_def popBack_def callInit_def
      andThen_def getBean_def getStatus_def sample_defs revEnv_def Let_def)

subsection \<open>C7: what collectBeans gathers\<close>




end
